theory Spec2Isabelle
  imports Complex_Main "HOL-Library.Log_Nat"
begin

section \<open>JavaScript strings\<close>

text \<open>
  A JavaScript string is a sequence of UTF-16 code units; a code unit is modelled by
  its number. \<open>str\<close> turns an ASCII literal into such a sequence.
\<close>

type_synonym jsstring = "nat list"

definition str :: "string \<Rightarrow> jsstring" where
  "str s = map of_char s"

text \<open>The class \<^verbatim>\<open>\d\<close> of a regular expression without the unicode flag: 0 to 9.\<close>

definition isDigit :: "nat \<Rightarrow> bool" where
  "isDigit c = (48 \<le> c \<and> c \<le> 57)"

text \<open>
  The code units that \<^verbatim>\<open>String.prototype.trim\<close> strips: ECMAScript's WhiteSpace
  (TAB, VT, FF, SP, NBSP, ZWNBSP and the space separators) and LineTerminator (LF, CR,
  LS, PS).
\<close>

definition isWhiteSpace :: "nat \<Rightarrow> bool" where
  "isWhiteSpace c =
     (c \<in> {9, 10, 11, 12, 13, 32, 160, 5760, 8232, 8233, 8239, 8287, 12288, 65279}
      \<or> (8192 \<le> c \<and> c \<le> 8202))"

definition trim :: "jsstring \<Rightarrow> jsstring" where
  "trim s = rev (dropWhile isWhiteSpace (rev (dropWhile isWhiteSpace s)))"

definition startsWith :: "jsstring \<Rightarrow> jsstring \<Rightarrow> bool" where
  "startsWith s p = (take (length p) s = p)"

section \<open>formatPhoneNumber (combined-scraper.js, lines 19 to 47)\<close>

text \<open>\<^verbatim>\<open>phoneNumber.replace(/\D/g, '')\<close>: the digits of the input, in order.\<close>

definition digitsOf :: "jsstring \<Rightarrow> jsstring" where
  "digitsOf phoneNumber = filter isDigit phoneNumber"

definition formatPhoneNumber :: "jsstring \<Rightarrow> jsstring" where
  "formatPhoneNumber phoneNumber =
     (if phoneNumber = [] \<or> trim phoneNumber = [] then []
      else
        let digits = digitsOf phoneNumber in
        if length digits = 10 then str ''+1'' @ digits
        else if length digits = 11 \<and> startsWith digits (str ''1'') then str ''+'' @ digits
        else if length digits = 11 \<and> \<not> startsWith digits (str ''1'') then str ''+'' @ digits
        else if length digits > 11 then str ''+'' @ digits
        else if length digits = 7 then str ''+1'' @ digits
        else if startsWith phoneNumber (str ''+'') then phoneNumber
        else str ''+'' @ digits)"

section \<open>Numbers: the percentage passed to the progress callback\<close>

text \<open>
  JavaScript numbers are IEEE 754 binary64 values. \<open>binary64 x\<close> is the value that a
  correctly rounded operation with the exact result \<open>x\<close> returns (round to nearest, ties
  to even, 53 bits of precision), for results in the normal range, which the quotients
  and products of counts below \<open>2 ^ 53\<close> are.
\<close>

definition floorLog2 :: "rat \<Rightarrow> int" where
  "floorLog2 x =
     (let (a, b) = quotient_of x; k = bitlen a - bitlen b
      in if 2 powi k \<le> x then k else k - 1)"

definition roundHalfEven :: "rat \<Rightarrow> int" where
  "roundHalfEven q =
     (let f = \<lfloor>q\<rfloor>; r = q - of_int f
      in if r < 1 / 2 then f else if 1 / 2 < r then f + 1 else if even f then f else f + 1)"

definition binary64 :: "rat \<Rightarrow> rat" where
  "binary64 x =
     (if x = 0 then 0
      else
        let ulp = 2 powi (floorLog2 \<bar>x\<bar> - 52)
        in sgn x * (of_int (roundHalfEven (\<bar>x\<bar> / ulp)) * ulp))"

text \<open>\<^verbatim>\<open>Math.round\<close>: the nearest integer, a tie going up.\<close>

definition jsMathRound :: "rat \<Rightarrow> int" where
  "jsMathRound x = \<lfloor>x + 1 / 2\<rfloor>"

text \<open>
  \<^verbatim>\<open>Math.round((newFound / targetResults) * 100)\<close>: a rounded division, a rounded
  product, and the nearest integer. The divisor is positive wherever the program
  evaluates the expression.
\<close>

definition jsPercent :: "nat \<Rightarrow> nat \<Rightarrow> nat" where
  "jsPercent n t = nat (jsMathRound (binary64 (binary64 (of_nat n / of_nat t) * 100)))"

section \<open>Records of the scraper\<close>

text \<open>
  The \<^verbatim>\<open>href\<close> of a result card: \<^verbatim>\<open>getAttribute\<close> returns a string or
  \<^verbatim>\<open>null\<close> (\<open>None\<close>).
\<close>

type_synonym href = "jsstring option"

text \<open>
  The object that \<^verbatim>\<open>extractBusinessDetails\<close> returns, one field for each key. A key
  that is absent or holds \<^verbatim>\<open>null\<close> is the empty string here: the program only tests
  these values for truthiness.
\<close>

record details =
  BusinessName :: jsstring
  CompanyType :: jsstring
  Rating :: jsstring
  Reviews :: jsstring
  Address :: jsstring
  PhoneNumber :: jsstring
  Website :: jsstring
  URL :: href
  Email :: jsstring
  Instagram :: jsstring
  LinkedIn :: jsstring
  Facebook :: jsstring

text \<open>A row of the table \<^verbatim>\<open>business_results\<close>.\<close>

record db_row =
  business_name :: jsstring
  company_type :: jsstring
  rating :: jsstring
  reviews :: jsstring
  address :: jsstring
  phone_number :: jsstring
  website :: jsstring
  url :: jsstring
  email :: jsstring
  instagram :: jsstring
  linkedin :: jsstring
  facebook :: jsstring
  search_session_id :: "nat option"

text \<open>\<^verbatim>\<open>mapToSupabaseColumns\<close> (lines 68 to 83): \<^verbatim>\<open>x || ''\<close> for every key.\<close>

definition mapToSupabaseColumns :: "details \<Rightarrow> db_row" where
  "mapToSupabaseColumns d =
     \<lparr>business_name = BusinessName d, company_type = CompanyType d, rating = Rating d,
      reviews = Reviews d, address = Address d, phone_number = PhoneNumber d,
      website = Website d, url = (case URL d of None \<Rightarrow> [] | Some u \<Rightarrow> u),
      email = Email d, instagram = Instagram d, linkedin = LinkedIn d,
      facebook = Facebook d, search_session_id = None\<rparr>"

text \<open>
  \<^verbatim>\<open>if (sessionId) mappedDetails['search_session_id'] = sessionId\<close> (line 529); the
  identifier 0 is falsy.
\<close>

definition withSession :: "nat option \<Rightarrow> db_row \<Rightarrow> db_row" where
  "withSession sessionId row =
     (case sessionId of
        None \<Rightarrow> row
      | Some i \<Rightarrow> if i = 0 then row else row\<lparr>search_session_id := Some i\<rparr>)"

text \<open>The conversion of a stored row back to the scraper's format (lines 1265 to 1278).\<close>

definition fromRow :: "db_row \<Rightarrow> details" where
  "fromRow r =
     \<lparr>BusinessName = business_name r, CompanyType = company_type r, Rating = rating r,
      Reviews = reviews r, Address = address r, PhoneNumber = phone_number r,
      Website = website r, URL = Some (url r), Email = email r, Instagram = instagram r,
      LinkedIn = linkedin r, Facebook = facebook r\<rparr>"

section \<open>The browser, the store and the caller as capabilities\<close>

text \<open>
  What the page, the store and the caller's callback answer is not the program's to
  decide. The program is modelled over an environment: every call takes the state of the
  outside world \<open>'w\<close> and returns its answer with the next state. A call of the page
  either returns or throws an \<^verbatim>\<open>Error\<close>; \<open>ContextDestroyed\<close> is an error whose
  message holds \<^verbatim>\<open>Execution context was destroyed\<close> or
  \<^verbatim>\<open>Target page, context or browser has been closed\<close>, the two that line 554 looks for.
\<close>

datatype page_error = ContextDestroyed | OtherError

type_synonym ('a, 'w) call = "'w \<Rightarrow> (page_error + 'a) \<times> 'w"

datatype selector = FeedOrResults | ResultTitle | CardLinks | RoleMain

text \<open>
  What a callback of the caller can throw: an \<^verbatim>\<open>Error\<close>, a value other than
  \<^verbatim>\<open>null\<close> and \<^verbatim>\<open>undefined\<close> with no \<^verbatim>\<open>message\<close>, or
  \<^verbatim>\<open>null\<close> or \<^verbatim>\<open>undefined\<close>.
\<close>

datatype thrown = ErrorObject page_error | PlainValue | Nullish

datatype cb_reply = CbReturned | CbThrew thrown

text \<open>
  The answers of an insert: rows came back, no row came back, the error of a violated
  unique constraint, or any other failure (an error of another kind, or a thrown one).
\<close>

datatype insert_reply = Inserted | NoRows | DuplicateKey | InsertFailed

record ('c, 'w) env =
  gotoMaps :: "jsstring \<Rightarrow> jsstring \<Rightarrow> nat \<Rightarrow> (unit, 'w) call"
  gotoUrl :: "href \<Rightarrow> nat \<Rightarrow> (unit, 'w) call"
  waitForTimeout :: "nat \<Rightarrow> (unit, 'w) call"
  waitForSelector :: "selector \<Rightarrow> nat \<Rightarrow> (unit, 'w) call"
  queryFeed :: "(bool, 'w) call"
  queryCards :: "('c list, 'w) call"
  scrollFeed :: "nat \<Rightarrow> (unit, 'w) call"
  getHref :: "'c \<Rightarrow> (href, 'w) call"
  isSponsored :: "'c \<Rightarrow> (bool, 'w) call"
  endOfList :: "(bool, 'w) call"
  dateNow :: "'w \<Rightarrow> nat \<times> 'w"
  readFields :: "(details, 'w) call"
  dbInsert :: "db_row \<Rightarrow> 'w \<Rightarrow> insert_reply \<times> 'w"
  dbSelectUrls :: "'w \<Rightarrow> href list option \<times> 'w"
  dbInsertSession :: "jsstring \<Rightarrow> jsstring \<Rightarrow> nat \<Rightarrow> nat \<Rightarrow> 'w \<Rightarrow> nat option \<times> 'w"
  dbSelectRecent :: "nat \<Rightarrow> 'w \<Rightarrow> db_row list option \<times> 'w"
  progressCb :: "nat \<Rightarrow> details list \<Rightarrow> 'w \<Rightarrow> cb_reply \<times> 'w"
  urlProgressCb :: "nat \<Rightarrow> href list \<Rightarrow> 'w \<Rightarrow> cb_reply \<times> 'w"

text \<open>One call after another; the first that throws ends the sequence.\<close>

definition andThen :: "('a, 'w) call \<Rightarrow> ('a \<Rightarrow> ('b, 'w) call) \<Rightarrow> ('b, 'w) call" where
  "andThen m f w = (case m w of (Inl e, w') \<Rightarrow> (Inl e, w') | (Inr x, w') \<Rightarrow> f x w')"

section \<open>insertWithRetry (lines 85 to 115)\<close>

text \<open>
  The loop over \<^verbatim>\<open>attempt\<close>, by the number of attempts that are left. A duplicate
  key counts as success; an insert that returns no row fails at once; any other failure
  is thrown, caught and tried again (after a pause) until the last attempt.
\<close>

fun insertAttempts :: "('c, 'w) env \<Rightarrow> db_row \<Rightarrow> nat \<Rightarrow> 'w \<Rightarrow> bool \<times> 'w" where
  "insertAttempts env data 0 w = (False, w)"
| "insertAttempts env data (Suc left) w =
     (case dbInsert env data w of
        (DuplicateKey, w') \<Rightarrow> (True, w')
      | (Inserted, w') \<Rightarrow> (True, w')
      | (NoRows, w') \<Rightarrow> (False, w')
      | (InsertFailed, w') \<Rightarrow> insertAttempts env data left w')"

definition insertWithRetry :: "('c, 'w) env \<Rightarrow> db_row \<Rightarrow> nat \<Rightarrow> 'w \<Rightarrow> bool \<times> 'w" where
  "insertWithRetry env data maxRetries w = insertAttempts env data maxRetries w"

text \<open>
  The world after \<open>k\<close> successive inserts of the same row, each answered by the store
  with a failure of the kind that is tried again; \<open>None\<close> when one of them was
  answered otherwise.
\<close>

fun failedInserts :: "('c, 'w) env \<Rightarrow> db_row \<Rightarrow> nat \<Rightarrow> 'w \<Rightarrow> 'w option" where
  "failedInserts env data 0 w = Some w"
| "failedInserts env data (Suc k) w =
     (case dbInsert env data w of
        (InsertFailed, w') \<Rightarrow> failedInserts env data k w'
      | (_, w') \<Rightarrow> None)"

section \<open>getPermanentSearchProgress (lines 152 to 176)\<close>

record permanent_progress =
  updatedIndex :: nat
  lastRetrievedCount :: nat
  existingUrls :: "href set"

definition getPermanentSearchProgress ::
  "('c, 'w) env \<Rightarrow> 'w \<Rightarrow> permanent_progress \<times> 'w" where
  "getPermanentSearchProgress env w =
     (case dbSelectUrls env w of
        (None, w') \<Rightarrow> (\<lparr>updatedIndex = 0, lastRetrievedCount = 0, existingUrls = {}\<rparr>, w')
      | (Some existingResults, w') \<Rightarrow>
          if existingResults \<noteq> []
          then (\<lparr>updatedIndex = length existingResults,
                 lastRetrievedCount = length existingResults,
                 existingUrls = set existingResults\<rparr>, w')
          else (\<lparr>updatedIndex = 0, lastRetrievedCount = 0, existingUrls = {}\<rparr>, w'))"

section \<open>Navigation helpers (lines 605 to 648)\<close>

text \<open>The loop that scrolls \<open>count\<close> times, 300 ms apart.\<close>

fun scrollTimes :: "('c, 'w) env \<Rightarrow> nat \<Rightarrow> (unit, 'w) call" where
  "scrollTimes env 0 w = (Inr (), w)"
| "scrollTimes env (Suc count) w =
     andThen (scrollFeed env 2000) (\<lambda>_.
     andThen (waitForTimeout env 300) (\<lambda>_.
     scrollTimes env count)) w"

text \<open>Lines 616 to 623 and 637 to 644: back to the approximate position.\<close>

definition scrollToPosition :: "('c, 'w) env \<Rightarrow> nat \<Rightarrow> (unit, 'w) call" where
  "scrollToPosition env currentIndex =
     andThen (queryFeed env) (\<lambda>scrollable.
       if scrollable then scrollTimes env (currentIndex div 8) else (\<lambda>w. (Inr (), w)))"

text \<open>The helper catches whatever is thrown: only the world changes.\<close>

definition reloadPageAndScrollToPosition ::
  "('c, 'w) env \<Rightarrow> jsstring \<Rightarrow> jsstring \<Rightarrow> nat \<Rightarrow> 'w \<Rightarrow> 'w" where
  "reloadPageAndScrollToPosition env searchTerm location currentIndex w =
     snd (andThen (gotoMaps env searchTerm location 30000) (\<lambda>_.
          andThen (waitForSelector env CardLinks 20000) (\<lambda>_.
          scrollToPosition env currentIndex)) w)"

definition navigateBackToList ::
  "('c, 'w) env \<Rightarrow> jsstring \<Rightarrow> jsstring \<Rightarrow> nat \<Rightarrow> 'w \<Rightarrow> 'w" where
  "navigateBackToList env searchTerm location currentIndex w =
     (case andThen (gotoMaps env searchTerm location 15000) (\<lambda>_.
           andThen (waitForTimeout env 2000) (\<lambda>_.
           andThen (waitForSelector env CardLinks 15000) (\<lambda>_.
           scrollToPosition env currentIndex))) w of
        (Inr _, w') \<Rightarrow> w'
      | (Inl _, w') \<Rightarrow> reloadPageAndScrollToPosition env searchTerm location currentIndex w')"

section \<open>extractBusinessDetails (lines 650 to 747)\<close>

text \<open>The object returned when anything in the extraction throws.\<close>

definition blankDetails :: "href \<Rightarrow> details" where
  "blankDetails u =
     \<lparr>BusinessName = [], CompanyType = [], Rating = [], Reviews = [], Address = [],
      PhoneNumber = [], Website = [], URL = u, Email = [], Instagram = [], LinkedIn = [],
      Facebook = []\<rparr>"

text \<open>
  \<open>readFields\<close> stands for the reads of the detail view and their clean-up (lines 656 to
  715): the name, the type, the rating, the reviews, the address, the website and the
  phone text. The function formats the phone number, sets \<^verbatim>\<open>URL\<close> to its argument
  and has no key for the e-mail and the social links.
\<close>

definition extractBusinessDetails :: "('c, 'w) env \<Rightarrow> href \<Rightarrow> 'w \<Rightarrow> details \<times> 'w" where
  "extractBusinessDetails env u w =
     (case andThen (gotoUrl env u 60000) (\<lambda>_.
           andThen (waitForSelector env RoleMain 10000) (\<lambda>_.
           andThen (waitForTimeout env 500) (\<lambda>_.
           readFields env))) w of
        (Inr f, w') \<Rightarrow>
          (\<lparr>BusinessName = BusinessName f, CompanyType = CompanyType f, Rating = Rating f,
            Reviews = Reviews f, Address = Address f,
            PhoneNumber = formatPhoneNumber (PhoneNumber f), Website = Website f, URL = u,
            Email = [], Instagram = [], LinkedIn = [], Facebook = []\<rparr>, w')
      | (Inl _, w') \<Rightarrow> (blankDetails u, w'))"

section \<open>scrapeUrlsAndDetails (lines 419 to 603)\<close>

text \<open>
  The local variables of the function, the world, and three history variables that no
  branch reads: the arguments of the calls of \<^verbatim>\<open>extractBusinessDetails\<close>, of
  \<^verbatim>\<open>insertWithRetry\<close> and of the progress callback, in the order of the calls.
\<close>

record ('c, 'w) scrape_state =
  results :: "details list"
  newFound :: nat
  processedUrls :: "href set"
  duplicatesSkipped :: nat
  currentUpdatedIndex :: nat
  allCards :: "'c list"
  scrollAttempts :: nat
  world :: 'w
  extracted :: "href list"
  committed :: "db_row list"
  progressCalls :: "(nat \<times> details list) list"

definition maxScrollAttempts :: nat where
  "maxScrollAttempts = 50"

text \<open>The inner loop of lines 463 to 468, until \<open>needed\<close> cards are loaded.\<close>

function scrollForCards ::
  "('c, 'w) env \<Rightarrow> nat \<Rightarrow> ('c, 'w) scrape_state \<Rightarrow> page_error option \<times> ('c, 'w) scrape_state"
  where
  "scrollForCards env needed st =
     (if length (allCards st) < needed \<and> scrollAttempts st < maxScrollAttempts then
        (case scrollFeed env 2000 (world st) of
           (Inl e, w1) \<Rightarrow> (Some e, st\<lparr>world := w1\<rparr>)
         | (Inr _, w1) \<Rightarrow>
             (case waitForTimeout env 1500 w1 of
                (Inl e, w2) \<Rightarrow> (Some e, st\<lparr>world := w2\<rparr>)
              | (Inr _, w2) \<Rightarrow>
                  (case queryCards env w2 of
                     (Inl e, w3) \<Rightarrow> (Some e, st\<lparr>world := w3\<rparr>)
                   | (Inr cards, w3) \<Rightarrow>
                       scrollForCards env needed
                         (st\<lparr>world := w3, allCards := cards,
                             scrollAttempts := scrollAttempts st + 1\<rparr>))))
      else (None, st))"
  by pat_completeness auto
termination
  by (relation "measure (\<lambda>(env, needed, st). maxScrollAttempts - scrollAttempts st)") auto

text \<open>Lines 459 to 469.\<close>

definition loadCards ::
  "('c, 'w) env \<Rightarrow> nat \<Rightarrow> nat \<Rightarrow> ('c, 'w) scrape_state
    \<Rightarrow> page_error option \<times> ('c, 'w) scrape_state" where
  "loadCards env targetResults buffer st =
     (if length (allCards st) < currentUpdatedIndex st + targetResults + buffer then
        (case queryCards env (world st) of
           (Inl e, w1) \<Rightarrow> (Some e, st\<lparr>world := w1\<rparr>)
         | (Inr cards, w1) \<Rightarrow>
             scrollForCards env (currentUpdatedIndex st + targetResults + buffer)
               (st\<lparr>world := w1, allCards := cards\<rparr>))
      else (None, st))"

text \<open>
  The loop of lines 475 to 502 over the cards from index \<open>i\<close> on; \<open>cards\<close> are the cards
  at \<open>i\<close>, \<open>i + 1\<close>, ... A card whose \<^verbatim>\<open>href\<close> cannot be read is passed over.
\<close>

fun collectUrls ::
  "('c, 'w) env \<Rightarrow> href set \<Rightarrow> nat \<Rightarrow> nat \<Rightarrow> 'c list \<Rightarrow> (href \<times> nat) list
    \<Rightarrow> ('c, 'w) scrape_state \<Rightarrow> (href \<times> nat) list \<times> ('c, 'w) scrape_state" where
  "collectUrls env existing targetResults i [] urlsToProcess st = (urlsToProcess, st)"
| "collectUrls env existing targetResults i (c # cards) urlsToProcess st =
     (case getHref env c (world st) of
        (Inl e, w1) \<Rightarrow>
          collectUrls env existing targetResults (i + 1) cards urlsToProcess (st\<lparr>world := w1\<rparr>)
      | (Inr u, w1) \<Rightarrow>
          if u \<in> processedUrls st then
            collectUrls env existing targetResults (i + 1) cards urlsToProcess
              (st\<lparr>world := w1, duplicatesSkipped := duplicatesSkipped st + 1\<rparr>)
          else if u \<in> existing then
            collectUrls env existing targetResults (i + 1) cards urlsToProcess
              (st\<lparr>world := w1, duplicatesSkipped := duplicatesSkipped st + 1\<rparr>)
          else
            let st1 = st\<lparr>world := w1, processedUrls := insert u (processedUrls st)\<rparr>;
                urlsToProcess1 = urlsToProcess @ [(u, i)]
            in if int targetResults - int (newFound st) + 5 \<le> int (length urlsToProcess1)
               then (urlsToProcess1, st1)
               else collectUrls env existing targetResults (i + 1) cards urlsToProcess1 st1)"

text \<open>
  The \<^verbatim>\<open>catch\<close> of lines 550 to 565, for an \<^verbatim>\<open>Error\<close>: the recovery when the
  context was destroyed, then the cursor moves past the card.
\<close>

definition recoverAndAdvance ::
  "('c, 'w) env \<Rightarrow> jsstring \<Rightarrow> jsstring \<Rightarrow> nat \<Rightarrow> page_error \<Rightarrow> ('c, 'w) scrape_state
    \<Rightarrow> ('c, 'w) scrape_state" where
  "recoverAndAdvance env searchTerm location index e st =
     (let w1 = (case e of
                  ContextDestroyed \<Rightarrow>
                    reloadPageAndScrollToPosition env searchTerm location (index + 1) (world st)
                | OtherError \<Rightarrow> world st)
      in st\<lparr>world := w1, currentUpdatedIndex := index + 1\<rparr>)"

text \<open>
  The same \<^verbatim>\<open>catch\<close> for whatever was thrown. Reading \<^verbatim>\<open>err.message\<close> of
  \<^verbatim>\<open>null\<close> (line 551), or calling \<^verbatim>\<open>includes\<close> of a missing message (line 554),
  throws a \<^verbatim>\<open>TypeError\<close> out of the handler, before the cursor is moved.
\<close>

definition catchProcessing ::
  "('c, 'w) env \<Rightarrow> jsstring \<Rightarrow> jsstring \<Rightarrow> nat \<Rightarrow> thrown \<Rightarrow> ('c, 'w) scrape_state
    \<Rightarrow> page_error option \<times> ('c, 'w) scrape_state" where
  "catchProcessing env searchTerm location index t st =
     (case t of
        ErrorObject e \<Rightarrow> (None, recoverAndAdvance env searchTerm location index e st)
      | PlainValue \<Rightarrow> (Some OtherError, st)
      | Nullish \<Rightarrow> (Some OtherError, st))"

text \<open>
  Lines 533 to 542: after a successful insert the record is pushed, the count grows and
  the callback is called with the percentage and a copy of the results.
\<close>

definition recordSuccess ::
  "('c, 'w) env \<Rightarrow> nat \<Rightarrow> details \<Rightarrow> ('c, 'w) scrape_state \<Rightarrow> cb_reply \<times> ('c, 'w) scrape_state"
  where
  "recordSuccess env targetResults d st =
     (let results1 = results st @ [d];
          newFound1 = newFound st + 1;
          percent = jsPercent newFound1 targetResults;
          (reply, w1) = progressCb env percent results1 (world st)
      in (reply, st\<lparr>results := results1, newFound := newFound1, world := w1,
                     progressCalls := progressCalls st @ [(percent, results1)]\<rparr>))"

text \<open>
  The body of the loop of lines 507 to 566 for one queued URL. The result \<open>Some e\<close> is
  a fault that leaves the loop.
\<close>

definition processUrl ::
  "('c, 'w) env \<Rightarrow> jsstring \<Rightarrow> jsstring \<Rightarrow> nat \<Rightarrow> nat option \<Rightarrow> href \<Rightarrow> nat
    \<Rightarrow> ('c, 'w) scrape_state \<Rightarrow> page_error option \<times> ('c, 'w) scrape_state" where
  "processUrl env searchTerm location targetResults sessionId u index st =
     (case andThen (gotoUrl env u 30000) (\<lambda>_. waitForTimeout env 2000) (world st) of
        (Inl e, w1) \<Rightarrow>
          catchProcessing env searchTerm location index (ErrorObject e) (st\<lparr>world := w1\<rparr>)
      | (Inr _, w1) \<Rightarrow>
          let (d, w2) = extractBusinessDetails env u w1;
              st2 = st\<lparr>world := w2, extracted := extracted st @ [u]\<rparr>
          in
          if BusinessName d = [] \<or> Address d = [] \<or> PhoneNumber d = [] then
            (None, st2\<lparr>currentUpdatedIndex := index + 1\<rparr>)
          else
            let mappedDetails = withSession sessionId (mapToSupabaseColumns d);
                (insertSuccess, w3) = insertWithRetry env mappedDetails 3 w2;
                st3 = st2\<lparr>world := w3, committed := committed st2 @ [mappedDetails]\<rparr>;
                (reply, st4) =
                  (if insertSuccess then recordSuccess env targetResults d st3
                   else (CbReturned, st3))
            in
            (case reply of
               CbThrew t \<Rightarrow> catchProcessing env searchTerm location index t st4
             | CbReturned \<Rightarrow>
                 (None,
                  st4\<lparr>world := navigateBackToList env searchTerm location (index + 1) (world st4),
                      currentUpdatedIndex := index + 1\<rparr>)))"

text \<open>The loop of lines 507 to 566 over the queue.\<close>

fun processUrls ::
  "('c, 'w) env \<Rightarrow> jsstring \<Rightarrow> jsstring \<Rightarrow> nat \<Rightarrow> nat option \<Rightarrow> (href \<times> nat) list
    \<Rightarrow> ('c, 'w) scrape_state \<Rightarrow> page_error option \<times> ('c, 'w) scrape_state" where
  "processUrls env searchTerm location targetResults sessionId [] st = (None, st)"
| "processUrls env searchTerm location targetResults sessionId ((u, index) # rest) st =
     (if newFound st < targetResults then
        (case processUrl env searchTerm location targetResults sessionId u index st of
           (Some e, st1) \<Rightarrow> (Some e, st1)
         | (None, st1) \<Rightarrow>
             processUrls env searchTerm location targetResults sessionId rest st1)
      else (None, st))"

text \<open>
  The loop of lines 457 to 573. Nothing bounds the number of its rounds when the page
  keeps growing, so each round uses one unit of \<open>fuel\<close>; \<open>None\<close> is a run that has not
  left the loop when the fuel is spent.
\<close>

fun scrapeLoop ::
  "nat \<Rightarrow> ('c, 'w) env \<Rightarrow> jsstring \<Rightarrow> jsstring \<Rightarrow> nat \<Rightarrow> nat option \<Rightarrow> nat \<Rightarrow> href set
    \<Rightarrow> ('c, 'w) scrape_state \<Rightarrow> (page_error option \<times> ('c, 'w) scrape_state) option" where
  "scrapeLoop fuel env searchTerm location targetResults sessionId buffer existing st =
     (if newFound st < targetResults \<and> scrollAttempts st < maxScrollAttempts then
        (case fuel of
           0 \<Rightarrow> None
         | Suc fuel1 \<Rightarrow>
             (case loadCards env targetResults buffer st of
                (Some e, st1) \<Rightarrow> Some (Some e, st1)
              | (None, st1) \<Rightarrow>
                  let (urlsToProcess, st2) =
                        collectUrls env existing targetResults (currentUpdatedIndex st1)
                          (drop (currentUpdatedIndex st1) (allCards st1)) [] st1
                  in
                  (case processUrls env searchTerm location targetResults sessionId
                          urlsToProcess st2 of
                     (Some e, st3) \<Rightarrow> Some (Some e, st3)
                   | (None, st3) \<Rightarrow>
                       scrapeLoop fuel1 env searchTerm location targetResults sessionId buffer
                         existing
                         (if newFound st3 < targetResults
                          then st3\<lparr>currentUpdatedIndex := length (allCards st3)\<rparr>
                          else st3))))
      else Some (None, st))"

record scrape_result =
  rNewFound :: nat
  rUpdatedIndex :: nat
  rResults :: "details list"

datatype completion = Returns scrape_result | Throws page_error

text \<open>
  Lines 436 to 444, and the same calls at lines 353 to 359 of \<^verbatim>\<open>scrapeUrls\<close>: the
  search page is opened and the feed element is looked up (\<open>False\<close> is \<^verbatim>\<open>null\<close>).
\<close>

definition openSearch :: "('c, 'w) env \<Rightarrow> jsstring \<Rightarrow> jsstring \<Rightarrow> (bool, 'w) call" where
  "openSearch env searchTerm location =
     andThen (gotoMaps env searchTerm location 60000) (\<lambda>_.
     andThen (waitForTimeout env 2000) (\<lambda>_.
     andThen (waitForSelector env FeedOrResults 20000) (\<lambda>_.
     andThen (waitForSelector env ResultTitle 20000) (\<lambda>_.
     queryFeed env))))"

text \<open>\<^verbatim>\<open>desiredNewResults || maxResults\<close> (line 434).\<close>

definition targetOf :: "nat option \<Rightarrow> nat \<Rightarrow> nat" where
  "targetOf desiredNewResults maxResults =
     (case desiredNewResults of
        None \<Rightarrow> maxResults
      | Some d \<Rightarrow> if d = 0 then maxResults else d)"

definition initialState :: "nat \<Rightarrow> 'w \<Rightarrow> ('c, 'w) scrape_state" where
  "initialState updatedIndex0 w =
     \<lparr>results = [], newFound = 0, processedUrls = {}, duplicatesSkipped = 0,
      currentUpdatedIndex = updatedIndex0, allCards = [], scrollAttempts = 0, world = w,
      extracted = [], committed = [], progressCalls = []\<rparr>"

text \<open>Lines 575 to 591: the results are trimmed to the target and returned.\<close>

definition finish :: "nat \<Rightarrow> ('c, 'w) scrape_state \<Rightarrow> scrape_result \<times> ('c, 'w) scrape_state" where
  "finish targetResults st =
     (let results1 = (if targetResults < length (results st)
                      then take targetResults (results st) else results st)
      in (\<lparr>rNewFound = length results1, rUpdatedIndex = currentUpdatedIndex st,
           rResults = results1\<rparr>,
          st\<lparr>results := results1\<rparr>))"

text \<open>The \<^verbatim>\<open>try\<close> block, lines 430 to 591: how it ends, and the state it ends in.\<close>

definition scrapeTry ::
  "nat \<Rightarrow> ('c, 'w) env \<Rightarrow> jsstring \<Rightarrow> jsstring \<Rightarrow> nat \<Rightarrow> nat \<Rightarrow> nat option \<Rightarrow> nat option
    \<Rightarrow> nat \<Rightarrow> href set \<Rightarrow> 'w \<Rightarrow> (completion \<times> ('c, 'w) scrape_state) option" where
  "scrapeTry fuel env searchTerm location maxResults updatedIndex0 sessionId
       desiredNewResults buffer existing w =
     (let st0 = initialState updatedIndex0 w;
          targetResults = targetOf desiredNewResults maxResults
      in
      case openSearch env searchTerm location w of
        (Inl e, w1) \<Rightarrow> Some (Throws e, st0\<lparr>world := w1\<rparr>)
      | (Inr scrollable, w1) \<Rightarrow>
          if \<not> scrollable then
            Some (Returns \<lparr>rNewFound = 0, rUpdatedIndex = currentUpdatedIndex st0,
                            rResults = []\<rparr>,
                  st0\<lparr>world := w1\<rparr>)
          else
            (case scrapeLoop fuel env searchTerm location targetResults sessionId buffer
                    existing (st0\<lparr>world := w1\<rparr>) of
               None \<Rightarrow> None
             | Some (Some e, st) \<Rightarrow> Some (Throws e, st)
             | Some (None, st) \<Rightarrow>
                 (case finish targetResults st of (r, st1) \<Rightarrow> Some (Returns r, st1))))"

text \<open>
  The function: what the \<^verbatim>\<open>try\<close> block returns, or, when it throws, the object
  that the \<^verbatim>\<open>catch\<close> of lines 592 to 602 builds from the variables.
\<close>

definition scrapeUrlsAndDetails ::
  "nat \<Rightarrow> ('c, 'w) env \<Rightarrow> jsstring \<Rightarrow> jsstring \<Rightarrow> nat \<Rightarrow> nat \<Rightarrow> nat option \<Rightarrow> nat option
    \<Rightarrow> nat \<Rightarrow> href set \<Rightarrow> 'w \<Rightarrow> (scrape_result \<times> ('c, 'w) scrape_state) option" where
  "scrapeUrlsAndDetails fuel env searchTerm location maxResults updatedIndex0 sessionId
       desiredNewResults buffer existing w =
     (case scrapeTry fuel env searchTerm location maxResults updatedIndex0 sessionId
             desiredNewResults buffer existing w of
        None \<Rightarrow> None
      | Some (Returns r, st) \<Rightarrow> Some (r, st)
      | Some (Throws e, st) \<Rightarrow>
          Some (\<lparr>rNewFound = length (results st), rUpdatedIndex = currentUpdatedIndex st,
                  rResults = results st\<rparr>, st))"

section \<open>scrapeAndEnrich (lines 1151 to 1307)\<close>

text \<open>
  Step 5, lines 1250 to 1297: a short list is topped up with the first rows of the
  store's answer, a long one is cut.
\<close>

definition finalCorrection ::
  "('c, 'w) env \<Rightarrow> nat \<Rightarrow> details list \<Rightarrow> 'w \<Rightarrow> details list \<times> 'w" where
  "finalCorrection env maxResults results0 w =
     (if length results0 \<noteq> maxResults then
        if length results0 < maxResults then
          (case dbSelectRecent env maxResults w of
             (None, w1) \<Rightarrow> (results0, w1)
           | (Some additionalResults, w1) \<Rightarrow>
               let dbResults = map fromRow additionalResults;
                   needed = maxResults - length results0;
                   additional = take needed dbResults
               in (if additional \<noteq> [] then results0 @ additional else results0, w1))
        else (take maxResults results0, w)
      else (results0, w))"

text \<open>
  The calls of the store outside a \<^verbatim>\<open>try\<close> report a failure in their answer; the
  \<^verbatim>\<open>catch\<close> of lines 1206 to 1218 is never entered, since \<^verbatim>\<open>scrapeUrlsAndDetails\<close>
  does not throw. The verification of step 4 only logs what it reads.
\<close>

definition scrapeAndEnrich ::
  "nat \<Rightarrow> ('c, 'w) env \<Rightarrow> jsstring \<Rightarrow> jsstring \<Rightarrow> nat \<Rightarrow> 'w \<Rightarrow> (details list \<times> 'w) option"
  where
  "scrapeAndEnrich fuel env searchTerm location maxResults w =
     (let (permanentProgress, w1) = getPermanentSearchProgress env w;
          (sessionId, w2) =
            dbInsertSession env searchTerm location (lastRetrievedCount permanentProgress)
              (updatedIndex permanentProgress) w1
      in
      case scrapeUrlsAndDetails fuel env searchTerm location maxResults
             (updatedIndex permanentProgress) sessionId None 20
             (existingUrls permanentProgress) w2 of
        None \<Rightarrow> None
      | Some (scrapeResult, st) \<Rightarrow>
          let results0 = rResults scrapeResult;
              newFound0 = length results0;
              (verification, w3) = dbSelectRecent env maxResults (world st);
              (results1, w4) = finalCorrection env maxResults results0 w3
          in Some (if newFound0 = 0 then [] else results1, w4))"

section \<open>scrapeUrls (lines 351 to 417)\<close>

text \<open>
  The loop of lines 370 to 383. It ends at the end of the list, after 100 scrolls, at
  200 cards, or when no new card has come for ten seconds.
\<close>

function scrollToEnd ::
  "('c, 'w) env \<Rightarrow> 'c list \<Rightarrow> nat \<Rightarrow> bool \<Rightarrow> nat \<Rightarrow> nat \<Rightarrow> ('c list, 'w) call" where
  "scrollToEnd env cards scrollTries atEnd lastCardCount lastNewCardTime w =
     (if \<not> atEnd \<and> scrollTries < 100 \<and> length cards < 200 then
        (case scrollFeed env 1500 w of
           (Inl e, w1) \<Rightarrow> (Inl e, w1)
         | (Inr _, w1) \<Rightarrow>
             (case waitForTimeout env 1000 w1 of
                (Inl e, w2) \<Rightarrow> (Inl e, w2)
              | (Inr _, w2) \<Rightarrow>
                  (case queryCards env w2 of
                     (Inl e, w3) \<Rightarrow> (Inl e, w3)
                   | (Inr cards1, w3) \<Rightarrow>
                       let (lastCardCount1, lastNewCardTime1, w4) =
                             (if lastCardCount < length cards1
                              then (case dateNow env w3 of (t, w') \<Rightarrow> (length cards1, t, w'))
                              else (lastCardCount, lastNewCardTime, w3));
                           (now, w5) = dateNow env w4
                       in
                       if 10000 < int now - int lastNewCardTime1 then (Inr cards1, w5)
                       else
                         (case endOfList env w5 of
                            (Inl e, w6) \<Rightarrow> (Inl e, w6)
                          | (Inr atEnd1, w6) \<Rightarrow>
                              scrollToEnd env cards1 (scrollTries + 1) atEnd1 lastCardCount1
                                lastNewCardTime1 w6))))
      else (Inr cards, w))"
  by pat_completeness auto
termination
  by (relation "measure (\<lambda>(env, cards, scrollTries, rest). 100 - scrollTries)") auto

text \<open>
  The loop of lines 390 to 415 over the cards that were kept; \<open>count\<close> is their number.
  The \<^verbatim>\<open>catch\<close> reads \<^verbatim>\<open>err.message\<close>, which itself throws when the callback has
  thrown \<^verbatim>\<open>null\<close> or \<^verbatim>\<open>undefined\<close>.
\<close>

fun extractCardUrls ::
  "('c, 'w) env \<Rightarrow> nat \<Rightarrow> nat \<Rightarrow> 'c list \<Rightarrow> href list \<Rightarrow> (href list, 'w) call" where
  "extractCardUrls env count i [] urls w = (Inr urls, w)"
| "extractCardUrls env count i (c # cards) urls w =
     (case isSponsored env c w of
        (Inl e, w1) \<Rightarrow> extractCardUrls env count (i + 1) cards urls w1
      | (Inr sponsored, w1) \<Rightarrow>
          if sponsored then extractCardUrls env count (i + 1) cards urls w1
          else
            (case getHref env c w1 of
               (Inl e, w2) \<Rightarrow> extractCardUrls env count (i + 1) cards urls w2
             | (Inr u, w2) \<Rightarrow>
                 (case urlProgressCb env (jsPercent (i + 1) count) (urls @ [u]) w2 of
                    (CbThrew Nullish, w3) \<Rightarrow> (Inl OtherError, w3)
                  | (_, w3) \<Rightarrow> extractCardUrls env count (i + 1) cards (urls @ [u]) w3)))"

definition scrapeUrls ::
  "('c, 'w) env \<Rightarrow> jsstring \<Rightarrow> jsstring \<Rightarrow> nat \<Rightarrow> nat \<Rightarrow> (href list, 'w) call" where
  "scrapeUrls env searchTerm location maxResults updatedIndex0 w =
     (case openSearch env searchTerm location w of
        (Inl e, w1) \<Rightarrow> (Inl e, w1)
      | (Inr scrollable, w1) \<Rightarrow>
          if \<not> scrollable then (Inr [], w1)
          else
            (case queryCards env w1 of
               (Inl e, w2) \<Rightarrow> (Inl e, w2)
             | (Inr cards, w2) \<Rightarrow>
                 (case dateNow env w2 of
                    (t0, w3) \<Rightarrow>
                      (case scrollToEnd env cards 0 False (length cards) t0 w3 of
                         (Inl e, w4) \<Rightarrow> (Inl e, w4)
                       | (Inr cards1, w4) \<Rightarrow>
                           let startIndex = updatedIndex0;
                               endIndex = (if maxResults \<noteq> 0
                                           then min (updatedIndex0 + maxResults) (length cards1)
                                           else length cards1);
                               cards2 = drop startIndex (take endIndex cards1)
                           in extractCardUrls env (length cards2) 0 cards2 [] w4))))"

section \<open>A simulated page and store, for concrete runs\<close>

text \<open>
  The world of the simulation: the address the page is at, and the rows of the store in
  the order of their insertion (and whatever more an extension of the record holds). The feed shows the same cards however far it is
  scrolled, a card is its own \<^verbatim>\<open>href\<close>, \<open>site\<close> gives the fields of the detail view
  of an address, and the store keeps \<^verbatim>\<open>url\<close> unique. When \<open>urlsReadable\<close> is false the
  read of the stored URLs at the start of the run fails. \<open>cb\<close> is the caller's progress
  callback.
\<close>

record sim_world =
  current :: href
  store :: "db_row list"

definition simEnv ::
  "href list \<Rightarrow> (href \<Rightarrow> details) \<Rightarrow> bool
    \<Rightarrow> (nat \<Rightarrow> details list \<Rightarrow> 'x sim_world_scheme \<Rightarrow> cb_reply \<times> 'x sim_world_scheme)
    \<Rightarrow> (href, 'x sim_world_scheme) env" where
  "simEnv feed site urlsReadable cb =
     \<lparr>gotoMaps = (\<lambda>searchTerm location timeout w. (Inr (), w\<lparr>current := None\<rparr>)),
      gotoUrl = (\<lambda>u timeout w. (Inr (), w\<lparr>current := u\<rparr>)),
      waitForTimeout = (\<lambda>ms w. (Inr (), w)),
      waitForSelector = (\<lambda>sel timeout w. (Inr (), w)),
      queryFeed = (\<lambda>w. (Inr True, w)),
      queryCards = (\<lambda>w. (Inr feed, w)),
      scrollFeed = (\<lambda>px w. (Inr (), w)),
      getHref = (\<lambda>c w. (Inr c, w)),
      isSponsored = (\<lambda>c w. (Inr False, w)),
      endOfList = (\<lambda>w. (Inr True, w)),
      dateNow = (\<lambda>w. (0, w)),
      readFields = (\<lambda>w. (Inr (site (current w)), w)),
      dbInsert = (\<lambda>row w.
        if url row \<in> set (map url (store w)) then (DuplicateKey, w)
        else (Inserted, w\<lparr>store := store w @ [row]\<rparr>)),
      dbSelectUrls = (\<lambda>w.
        (if urlsReadable then Some (map (\<lambda>r. Some (url r)) (store w)) else None, w)),
      dbInsertSession = (\<lambda>searchTerm location count index w. (None, w)),
      dbSelectRecent = (\<lambda>limit w. (Some (take limit (rev (store w))), w)),
      progressCb = cb,
      urlProgressCb = (\<lambda>percent snapshot w. (CbReturned, w))\<rparr>"

text \<open>A callback that returns, and one that throws a string.\<close>

definition quietCb ::
  "nat \<Rightarrow> details list \<Rightarrow> 'x sim_world_scheme \<Rightarrow> cb_reply \<times> 'x sim_world_scheme" where
  "quietCb percent snapshot w = (CbReturned, w)"

definition throwingCb ::
  "nat \<Rightarrow> details list \<Rightarrow> 'x sim_world_scheme \<Rightarrow> cb_reply \<times> 'x sim_world_scheme" where
  "throwingCb percent snapshot w = (CbThrew PlainValue, w)"

text \<open>What \<^verbatim>\<open>extractBusinessDetails\<close> returns for an address of the simulation.\<close>

definition simDetails :: "(href \<Rightarrow> details) \<Rightarrow> href \<Rightarrow> details" where
  "simDetails site u =
     \<lparr>BusinessName = BusinessName (site u), CompanyType = CompanyType (site u),
      Rating = Rating (site u), Reviews = Reviews (site u), Address = Address (site u),
      PhoneNumber = formatPhoneNumber (PhoneNumber (site u)), Website = Website (site u),
      URL = u, Email = [], Instagram = [], LinkedIn = [], Facebook = []\<rparr>"

text \<open>An environment whose feed answers as the simulated one.\<close>

definition simPage :: "('c, 'w) env \<Rightarrow> 'c list \<Rightarrow> bool" where
  "simPage env feed =
     (scrollFeed env = (\<lambda>px w. (Inr (), w)) \<and> waitForTimeout env = (\<lambda>ms w. (Inr (), w))
      \<and> queryCards env = (\<lambda>w. (Inr feed, w)))"

text \<open>A business with a name, an address and a phone number, and one without a phone.\<close>

definition complete :: "nat \<Rightarrow> details" where
  "complete n = (blankDetails None)
     \<lparr>BusinessName := [66, n], Address := [65, n], PhoneNumber := str ''808 969-3899''\<rparr>"

definition noPhone :: "nat \<Rightarrow> details" where
  "noPhone n = (blankDetails None)\<lparr>BusinessName := [66, n], Address := [65, n]\<rparr>"

text \<open>
  A site where the address \<open>[n]\<close> shows a complete business when \<open>n\<close> is at least 10
  and one without a phone number otherwise; the record and the row of such an address;
  and a store with no rows.
\<close>

definition shopSite :: "href \<Rightarrow> details" where
  "shopSite u =
     (case u of
        Some [n] \<Rightarrow> if 10 \<le> n then complete n else noPhone n
      | _ \<Rightarrow> blankDetails None)"

definition shop :: "nat \<Rightarrow> details" where
  "shop n = simDetails shopSite (Some [n])"

definition shopRow :: "nat \<Rightarrow> db_row" where
  "shopRow n = mapToSupabaseColumns (shop n)"

definition emptyStore :: sim_world where
  "emptyStore = \<lparr>current = None, store = []\<rparr>"

text \<open>
  The feed of run C, 23 cards: the first card and the last fifteen are complete
  businesses, the seven between them have no phone number. The feed of run F. A store with
  given rows.
\<close>

definition feedC :: "href list" where
  "feedC = Some [10] # map (\<lambda>n. Some [n]) [2..<9] @ map (\<lambda>n. Some [n]) [11..<26]"

definition feedF :: "href list" where
  "feedF = [Some [20], Some [10], Some [30], Some [40]]"

definition storeOf :: "db_row list \<Rightarrow> sim_world" where
  "storeOf rows = \<lparr>current = None, store = rows\<rparr>"

text \<open>
  A world that also holds what the caller's callback has been given, call after call, and
  the number of inserts that the store will still answer with a failure; the callback
  that writes its arguments down and returns; an environment whose store is out of
  order for the first inserts; a feed of 23 complete businesses; and a world with given
  rows in which nothing has been heard yet.
\<close>

record heard_world = sim_world +
  heard :: "(nat \<times> details list) list"
  outage :: nat

definition hearingCb :: "nat \<Rightarrow> details list \<Rightarrow> heard_world \<Rightarrow> cb_reply \<times> heard_world" where
  "hearingCb percent snapshot w = (CbReturned, w\<lparr>heard := heard w @ [(percent, snapshot)]\<rparr>)"

definition failingFirst :: "(href, heard_world) env \<Rightarrow> (href, heard_world) env" where
  "failingFirst env =
     env\<lparr>dbInsert := (\<lambda>row w.
       if 0 < outage w then (InsertFailed, w\<lparr>outage := outage w - 1\<rparr>)
       else dbInsert env row w)\<rparr>"

definition feedG :: "href list" where
  "feedG = map (\<lambda>n. Some [n]) [10..<33]"

definition unheard :: "db_row list \<Rightarrow> nat \<Rightarrow> heard_world" where
  "unheard rows k = \<lparr>current = None, store = rows, heard = [], outage = k\<rparr>"

section \<open>The invariant of a run\<close>

text \<open>A row with the three required fields.\<close>

definition completeRow :: "db_row \<Rightarrow> bool" where
  "completeRow r = (business_name r \<noteq> [] \<and> address r \<noteq> [] \<and> phone_number r \<noteq> [])"

text \<open>
  What holds of the variables and the history at every point of the main loop: the
  count is the length of the results and at most the target; every URL is extracted at
  most once, was queued before, and is not a URL known from the store; the results are
  records of extracted URLs, one for each; every row handed to the store is complete; and
  the callback has been called once for each result, with the percentage of that moment
  and the results up to it.
\<close>

definition runInvariant :: "href set \<Rightarrow> nat \<Rightarrow> ('c, 'w) scrape_state \<Rightarrow> bool" where
  "runInvariant existing targetResults st =
     (length (results st) = newFound st \<and> newFound st \<le> targetResults
      \<and> distinct (extracted st) \<and> set (extracted st) \<subseteq> processedUrls st
      \<and> processedUrls st \<inter> existing = {}
      \<and> distinct (map URL (results st)) \<and> set (map URL (results st)) \<subseteq> set (extracted st)
      \<and> list_all completeRow (committed st)
      \<and> progressCalls st =
          map (\<lambda>k. (jsPercent k targetResults, take k (results st))) [1..<Suc (newFound st)])"

text \<open>
  An observation \<open>calls\<close> of the world is a record of the calls of the progress
  callback when every call of the callback adds its two arguments at the end of it and
  no call of the page or of the store changes it.
\<close>

definition callbackLog :: "('c, 'w) env \<Rightarrow> ('w \<Rightarrow> (nat \<times> details list) list) \<Rightarrow> bool" where
  "callbackLog env calls =
     ((\<forall>percent snapshot w.
         calls (snd (progressCb env percent snapshot w)) = calls w @ [(percent, snapshot)])
      \<and> (\<forall>s l t w. calls (snd (gotoMaps env s l t w)) = calls w)
      \<and> (\<forall>u t w. calls (snd (gotoUrl env u t w)) = calls w)
      \<and> (\<forall>ms w. calls (snd (waitForTimeout env ms w)) = calls w)
      \<and> (\<forall>sel t w. calls (snd (waitForSelector env sel t w)) = calls w)
      \<and> (\<forall>w. calls (snd (queryFeed env w)) = calls w)
      \<and> (\<forall>w. calls (snd (queryCards env w)) = calls w)
      \<and> (\<forall>px w. calls (snd (scrollFeed env px w)) = calls w)
      \<and> (\<forall>c w. calls (snd (getHref env c w)) = calls w)
      \<and> (\<forall>w. calls (snd (readFields env w)) = calls w)
      \<and> (\<forall>row w. calls (snd (dbInsert env row w)) = calls w))"

text \<open>
  A bound on the rounds of the main loop that are left, when the page never shows more
  than \<open>N\<close> cards: a round scrolls, or it finds more cards than the round before.
\<close>

definition roundsLeft :: "nat \<Rightarrow> ('c, 'w) scrape_state \<Rightarrow> nat" where
  "roundsLeft N st =
     (maxScrollAttempts - scrollAttempts st) * (N + 1) + (N - length (allCards st))"

text \<open>The equations of the loops are unfolded by hand.\<close>

declare scrapeLoop.simps [simp del] scrollForCards.simps [simp del] scrollToEnd.simps [simp del]

section \<open>Properties of the phone formatter\<close>

lemma isDigit_not_isWhiteSpace: "isDigit c \<Longrightarrow> \<not> isWhiteSpace c"
  by (auto simp: isDigit_def isWhiteSpace_def)

lemma dropWhile_isWhiteSpace_digits:
  "filter isDigit (dropWhile isWhiteSpace s) = filter isDigit s"
  by (induction s) (auto dest: isDigit_not_isWhiteSpace)

lemma digitsOf_trim: "digitsOf (trim s) = digitsOf s"
proof -
  have "filter isDigit (rev (dropWhile isWhiteSpace (rev (dropWhile isWhiteSpace s))))
        = rev (filter isDigit (dropWhile isWhiteSpace (rev (dropWhile isWhiteSpace s))))"
    by (simp add: rev_filter)
  also have "\<dots> = rev (filter isDigit (rev (dropWhile isWhiteSpace s)))"
    by (simp only: dropWhile_isWhiteSpace_digits)
  also have "\<dots> = filter isDigit (dropWhile isWhiteSpace s)"
    by (simp add: rev_filter)
  also have "\<dots> = filter isDigit s"
    by (rule dropWhile_isWhiteSpace_digits)
  finally show ?thesis
    by (simp add: digitsOf_def trim_def)
qed

lemma digits_imp_not_blank:
  assumes "digitsOf s \<noteq> []"
  shows "s \<noteq> [] \<and> trim s \<noteq> []"
proof -
  from assms have "digitsOf (trim s) \<noteq> []"
    by (simp add: digitsOf_trim)
  then have "trim s \<noteq> []"
    by (auto simp: digitsOf_def)
  moreover from assms have "s \<noteq> []"
    by (auto simp: digitsOf_def)
  ultimately show ?thesis by simp
qed

text \<open>
  C5. The phone formatter maps an input by the number of its digits: ten digits give
  \<open>+1\<close> and the digits; eleven digits that start with 1 give \<open>+\<close> and the digits;
  eleven or more digits otherwise give \<open>+\<close> and the digits; seven digits give \<open>+1\<close>
  and the digits. (An input with a digit is not empty and not blank.)
\<close>

theorem formatPhoneNumber_by_digit_count:
  "(length (digitsOf s) = 10 \<longrightarrow> formatPhoneNumber s = str ''+1'' @ digitsOf s)
   \<and> (length (digitsOf s) = 11 \<and> startsWith (digitsOf s) (str ''1'')
        \<longrightarrow> formatPhoneNumber s = str ''+'' @ digitsOf s)
   \<and> (11 \<le> length (digitsOf s) \<longrightarrow> formatPhoneNumber s = str ''+'' @ digitsOf s)
   \<and> (length (digitsOf s) = 7 \<longrightarrow> formatPhoneNumber s = str ''+1'' @ digitsOf s)"
proof -
  have nb: "s \<noteq> [] \<and> trim s \<noteq> []" if "7 \<le> length (digitsOf s)"
  proof -
    from that have "digitsOf s \<noteq> []" by auto
    then show ?thesis by (rule digits_imp_not_blank)
  qed
  have c10: "formatPhoneNumber s = str ''+1'' @ digitsOf s" if h: "length (digitsOf s) = 10"
  proof -
    from h have "s \<noteq> [] \<and> trim s \<noteq> []" by (intro nb) simp
    with h show ?thesis by (simp add: formatPhoneNumber_def)
  qed
  have c11: "formatPhoneNumber s = str ''+'' @ digitsOf s" if h: "11 \<le> length (digitsOf s)"
  proof -
    from h have "s \<noteq> [] \<and> trim s \<noteq> []" by (intro nb) simp
    with h show ?thesis by (auto simp: formatPhoneNumber_def Let_def)
  qed
  have c7: "formatPhoneNumber s = str ''+1'' @ digitsOf s" if h: "length (digitsOf s) = 7"
  proof -
    from h have "s \<noteq> [] \<and> trim s \<noteq> []" by (intro nb) simp
    with h show ?thesis by (simp add: formatPhoneNumber_def)
  qed
  show ?thesis
    using c10 c11 c7 by simp
qed

theorem formatPhoneNumber_by_digit_count_witness:
  "formatPhoneNumber (str ''808 969-3899'') = str ''+18089693899''
   \<and> formatPhoneNumber (str ''1 808 969-3899'') = str ''+18089693899''
   \<and> formatPhoneNumber (str ''44 20 7946 0958 1'') = str ''+442079460958''  @ str ''1''
   \<and> formatPhoneNumber (str ''969-3899'') = str ''+19693899''"
proof -
  have d1: "digitsOf (str ''808 969-3899'') = str ''8089693899''"
    by (simp add: digitsOf_def str_def isDigit_def)
  have d2: "digitsOf (str ''1 808 969-3899'') = str ''18089693899''"
    by (simp add: digitsOf_def str_def isDigit_def)
  have d3: "digitsOf (str ''44 20 7946 0958 1'') = str ''4420794609581''"
    by (simp add: digitsOf_def str_def isDigit_def)
  have d4: "digitsOf (str ''969-3899'') = str ''9693899''"
    by (simp add: digitsOf_def str_def isDigit_def)
  show ?thesis
    using formatPhoneNumber_by_digit_count [of "str ''808 969-3899''"]
      formatPhoneNumber_by_digit_count [of "str ''1 808 969-3899''"]
      formatPhoneNumber_by_digit_count [of "str ''44 20 7946 0958 1''"]
      formatPhoneNumber_by_digit_count [of "str ''969-3899''"]
    unfolding d1 d2 d3 d4
    by (simp add: str_def startsWith_def)
qed

section \<open>The invariant is kept by every step of the main loop\<close>

lemma extract_URL: "extractBusinessDetails env u w = (d, w') \<Longrightarrow> URL d = u"
  by (auto simp: extractBusinessDetails_def blankDetails_def split: prod.splits sum.splits)

lemma mapped_complete:
  "BusinessName d \<noteq> [] \<Longrightarrow> Address d \<noteq> [] \<Longrightarrow> PhoneNumber d \<noteq> []
   \<Longrightarrow> completeRow (withSession sid (mapToSupabaseColumns d))"
  by (simp add: completeRow_def withSession_def mapToSupabaseColumns_def split: option.splits)

lemma progress_snapshots_step:
  assumes "length rs = n"
  shows "map (\<lambda>k. (p k, take k (rs @ [d]))) [1..<Suc (Suc n)]
         = map (\<lambda>k. (p k, take k rs)) [1..<Suc n] @ [(p (Suc n), rs @ [d])]"
proof -
  have "map (\<lambda>k. (p k, take k (rs @ [d]))) [1..<Suc n] = map (\<lambda>k. (p k, take k rs)) [1..<Suc n]"
    using assms by (intro map_cong) auto
  then show ?thesis using assms by simp
qed

lemma catchProcessing_frame:
  assumes "catchProcessing env s l i t st = (e, st')"
  shows "results st' = results st \<and> newFound st' = newFound st
         \<and> processedUrls st' = processedUrls st \<and> extracted st' = extracted st
         \<and> committed st' = committed st \<and> progressCalls st' = progressCalls st
         \<and> allCards st' = allCards st \<and> scrollAttempts st' = scrollAttempts st"
  using assms
  by (auto simp: catchProcessing_def recoverAndAdvance_def Let_def split: thrown.splits)

lemma catchProcessing_inv:
  assumes "catchProcessing env s l i t st = (e, st')" "runInvariant ex tr st"
  shows "runInvariant ex tr st'"
  using catchProcessing_frame [OF assms(1)] assms(2) by (simp add: runInvariant_def)

lemma recordSuccess_effect:
  assumes "recordSuccess env tr d st = (reply, st')"
  shows "results st' = results st @ [d] \<and> newFound st' = newFound st + 1
         \<and> progressCalls st'
             = progressCalls st @ [(jsPercent (newFound st + 1) tr, results st @ [d])]
         \<and> processedUrls st' = processedUrls st \<and> extracted st' = extracted st
         \<and> committed st' = committed st \<and> allCards st' = allCards st
         \<and> scrollAttempts st' = scrollAttempts st
         \<and> currentUpdatedIndex st' = currentUpdatedIndex st"
  using assms by (auto simp: recordSuccess_def Let_def split: prod.splits)

lemma recordSuccess_inv:
  assumes rs: "recordSuccess env tr d st = (reply, st')"
    and inv: "runInvariant ex tr st" and lt: "newFound st < tr"
    and new: "URL d \<notin> set (map URL (results st))" and ext: "URL d \<in> set (extracted st)"
  shows "runInvariant ex tr st'"
proof -
  note eff = recordSuccess_effect [OF rs]
  from inv have len: "length (results st) = newFound st"
    and pc: "progressCalls st
             = map (\<lambda>k. (jsPercent k tr, take k (results st))) [1..<Suc (newFound st)]"
    by (simp_all add: runInvariant_def)
  have "progressCalls st'
        = map (\<lambda>k. (jsPercent k tr, take k (results st @ [d]))) [1..<Suc (Suc (newFound st))]"
    using eff pc progress_snapshots_step [OF len, of "\<lambda>k. jsPercent k tr" d] by simp
  then show ?thesis
    using eff inv lt new ext by (auto simp: runInvariant_def)
qed

lemma processUrl_inv:
  assumes step: "processUrl env s l tr sid u i st = (e, st')"
    and inv: "runInvariant ex tr st" and lt: "newFound st < tr"
    and fresh: "u \<notin> set (extracted st)" and queued: "u \<in> processedUrls st"
  shows "runInvariant ex tr st' \<and> processedUrls st' = processedUrls st
         \<and> set (extracted st') \<subseteq> insert u (set (extracted st))
         \<and> allCards st' = allCards st \<and> scrollAttempts st' = scrollAttempts st"
proof (cases "andThen (gotoUrl env u 30000) (\<lambda>_. waitForTimeout env 2000) (world st)")
  case (Pair nav w1)
  show ?thesis
  proof (cases nav)
    case (Inl err)
    with Pair step have c: "catchProcessing env s l i (ErrorObject err) (st\<lparr>world := w1\<rparr>) = (e, st')"
      by (simp add: processUrl_def)
    have "runInvariant ex tr (st\<lparr>world := w1\<rparr>)"
      using inv by (simp add: runInvariant_def)
    from catchProcessing_inv [OF c this] catchProcessing_frame [OF c]
    show ?thesis by auto
  next
    case (Inr unit)
    obtain d w2 where ex: "extractBusinessDetails env u w1 = (d, w2)"
      by (cases "extractBusinessDetails env u w1")
    then have url: "URL d = u" by (rule extract_URL)
    define st2 where "st2 = st\<lparr>world := w2, extracted := extracted st @ [u]\<rparr>"
    have inv2: "runInvariant ex tr st2"
      using inv fresh queued by (auto simp: runInvariant_def st2_def)
    have fr2: "processedUrls st2 = processedUrls st" "set (extracted st2) = insert u (set (extracted st))"
      "allCards st2 = allCards st" "scrollAttempts st2 = scrollAttempts st"
      "newFound st2 = newFound st" "results st2 = results st"
      by (simp_all add: st2_def)
    show ?thesis
    proof (cases "BusinessName d = [] \<or> Address d = [] \<or> PhoneNumber d = []")
      case True
      with Pair Inr ex step have "st' = st2\<lparr>currentUpdatedIndex := i + 1\<rparr>"
        by (auto simp: processUrl_def st2_def)
      with inv2 fr2 show ?thesis by (auto simp: runInvariant_def)
    next
      case False
      define row where "row = withSession sid (mapToSupabaseColumns d)"
      obtain ok w3 where ins: "insertWithRetry env row 3 w2 = (ok, w3)"
        by (cases "insertWithRetry env row 3 w2")
      define st3 where "st3 = st2\<lparr>world := w3, committed := committed st2 @ [row]\<rparr>"
      have "completeRow row"
        using False by (simp add: row_def mapped_complete)
      then have inv3: "runInvariant ex tr st3"
        using inv2 by (auto simp: runInvariant_def st3_def)
      have fr3: "processedUrls st3 = processedUrls st" "set (extracted st3) = insert u (set (extracted st))"
        "allCards st3 = allCards st" "scrollAttempts st3 = scrollAttempts st"
        "newFound st3 = newFound st" "results st3 = results st"
        using fr2 by (simp_all add: st3_def)
      obtain reply st4 where r: "(if ok then recordSuccess env tr d st3 else (CbReturned, st3)) = (reply, st4)"
        by (cases "if ok then recordSuccess env tr d st3 else (CbReturned, st3)")
      have inv4: "runInvariant ex tr st4 \<and> processedUrls st4 = processedUrls st
         \<and> set (extracted st4) = insert u (set (extracted st))
         \<and> allCards st4 = allCards st \<and> scrollAttempts st4 = scrollAttempts st"
      proof (cases ok)
        case True
        with r have rs: "recordSuccess env tr d st3 = (reply, st4)" by simp
        have "URL d \<notin> set (map URL (results st3))"
          using inv fresh url fr3 by (auto simp: runInvariant_def)
        moreover have "URL d \<in> set (extracted st3)" using url fr3 by simp
        ultimately have "runInvariant ex tr st4"
          using recordSuccess_inv [OF rs inv3] lt fr3 by simp
        with recordSuccess_effect [OF rs] fr3 show ?thesis by simp
      next
        case False
        with r inv3 fr3 show ?thesis by simp
      qed
      have step': "(case reply of
               CbThrew t \<Rightarrow> catchProcessing env s l i t st4
             | CbReturned \<Rightarrow>
                 (None,
                  st4\<lparr>world := navigateBackToList env s l (i + 1) (world st4),
                      currentUpdatedIndex := i + 1\<rparr>)) = (e, st')"
        using Pair Inr ex step False ins r unfolding st2_def st3_def row_def
        by (cases ok) (auto simp add: processUrl_def Let_def split: prod.splits)
      show ?thesis
      proof (cases reply)
        case CbReturned
        with step' have "st' = st4\<lparr>world := navigateBackToList env s l (i + 1) (world st4),
                      currentUpdatedIndex := i + 1\<rparr>" by simp
        with inv4 show ?thesis by (auto simp: runInvariant_def)
      next
        case (CbThrew t)
        with step' have c: "catchProcessing env s l i t st4 = (e, st')" by simp
        from catchProcessing_inv [OF c] catchProcessing_frame [OF c] inv4
        show ?thesis by auto
      qed
    qed
  qed
qed


lemma processUrls_inv:
  assumes "processUrls env s l tr sid q st = (e, st')"
    and "runInvariant ex tr st"
    and "distinct (map fst q)"
    and "set (map fst q) \<inter> set (extracted st) = {}"
    and "set (map fst q) \<subseteq> processedUrls st"
  shows "runInvariant ex tr st' \<and> processedUrls st' = processedUrls st
         \<and> allCards st' = allCards st \<and> scrollAttempts st' = scrollAttempts st"
  using assms
proof (induction q arbitrary: st)
  case Nil
  then show ?case by simp
next
  case (Cons a q)
  obtain u i where a: "a = (u, i)" by (cases a)
  show ?case
  proof (cases "newFound st < tr")
    case False
    with Cons.prems a show ?thesis by simp
  next
    case True
    obtain e1 st1 where p: "processUrl env s l tr sid u i st = (e1, st1)"
      by (cases "processUrl env s l tr sid u i st")
    have u: "u \<notin> set (extracted st)" "u \<in> processedUrls st"
      using Cons.prems(4,5) a by auto
    note one = processUrl_inv [OF p Cons.prems(2) True u]
    show ?thesis
    proof (cases e1)
      case (Some err)
      with Cons.prems(1) a True p one show ?thesis by simp
    next
      case None
      with Cons.prems(1) a True p
      have rest: "processUrls env s l tr sid q st1 = (e, st')" by simp
      have "set (map fst q) \<inter> set (extracted st1) = {}"
        using one Cons.prems(3,4) a by auto
      moreover have "set (map fst q) \<subseteq> processedUrls st1"
        using one Cons.prems(5) by auto
      moreover have "distinct (map fst q)" using Cons.prems(3) by simp
      ultimately show ?thesis
        using Cons.IH [OF rest] one by simp
    qed
  qed
qed

lemma collectUrls_effect:
  assumes "collectUrls env ex tr i cards q st = (q', st')"
  shows "results st' = results st \<and> newFound st' = newFound st
         \<and> extracted st' = extracted st \<and> committed st' = committed st
         \<and> progressCalls st' = progressCalls st \<and> allCards st' = allCards st
         \<and> scrollAttempts st' = scrollAttempts st
         \<and> currentUpdatedIndex st' = currentUpdatedIndex st
         \<and> (\<exists>new. q' = q @ new \<and> distinct (map fst new)
               \<and> set (map fst new) \<inter> (processedUrls st \<union> ex) = {}
               \<and> processedUrls st' = processedUrls st \<union> set (map fst new))"
  using assms
proof (induction cards arbitrary: i q st)
  case Nil
  then show ?case by simp
next
  case (Cons c cards)
  obtain r w1 where h: "getHref env c (world st) = (r, w1)"
    by (cases "getHref env c (world st)")
  show ?case
  proof (cases r)
    case (Inl err)
    with Cons.prems h
    have "collectUrls env ex tr (i + 1) cards q (st\<lparr>world := w1\<rparr>) = (q', st')" by simp
    from Cons.IH [OF this] show ?thesis by simp
  next
    case (Inr u)
    consider (seen) "u \<in> processedUrls st \<or> u \<in> ex"
      | (stop) "u \<notin> processedUrls st" "u \<notin> ex"
          "int tr - int (newFound st) + 5 \<le> int (length (q @ [(u, i)]))"
      | (more) "u \<notin> processedUrls st" "u \<notin> ex"
          "\<not> int tr - int (newFound st) + 5 \<le> int (length (q @ [(u, i)]))"
      by blast
    then show ?thesis
    proof cases
      case seen
      with Cons.prems h Inr
      have "collectUrls env ex tr (i + 1) cards q
              (st\<lparr>world := w1, duplicatesSkipped := duplicatesSkipped st + 1\<rparr>) = (q', st')"
        by (auto split: if_splits)
      from Cons.IH [OF this] show ?thesis by simp
    next
      case stop
      with Cons.prems h Inr
      have "q' = q @ [(u, i)]"
        and "st' = st\<lparr>world := w1, processedUrls := insert u (processedUrls st)\<rparr>"
        by (simp_all add: Let_def)
      with stop show ?thesis by simp
    next
      case more
      with Cons.prems h Inr
      have "collectUrls env ex tr (i + 1) cards (q @ [(u, i)])
              (st\<lparr>world := w1, processedUrls := insert u (processedUrls st)\<rparr>) = (q', st')"
        by (simp add: Let_def)
      from Cons.IH [OF this] obtain new where
        fr: "results st' = results st" "newFound st' = newFound st"
          "extracted st' = extracted st" "committed st' = committed st"
          "progressCalls st' = progressCalls st" "allCards st' = allCards st"
          "scrollAttempts st' = scrollAttempts st"
          "currentUpdatedIndex st' = currentUpdatedIndex st"
        and n: "q' = (q @ [(u, i)]) @ new" "distinct (map fst new)"
          "set (map fst new) \<inter> (insert u (processedUrls st) \<union> ex) = {}"
          "processedUrls st' = insert u (processedUrls st) \<union> set (map fst new)"
        by auto
      have "q' = q @ ((u, i) # new)" using n by simp
      moreover have "distinct (map fst ((u, i) # new))" using n by auto
      moreover have "set (map fst ((u, i) # new)) \<inter> (processedUrls st \<union> ex) = {}"
        using n more by auto
      moreover have "processedUrls st' = processedUrls st \<union> set (map fst ((u, i) # new))"
        using n by auto
      ultimately show ?thesis using fr by blast
    qed
  qed
qed

lemma scrollForCards_frame:
  assumes "scrollForCards env needed st = (e, st')"
  shows "results st' = results st \<and> newFound st' = newFound st
         \<and> processedUrls st' = processedUrls st \<and> extracted st' = extracted st
         \<and> committed st' = committed st \<and> progressCalls st' = progressCalls st
         \<and> currentUpdatedIndex st' = currentUpdatedIndex st
         \<and> scrollAttempts st \<le> scrollAttempts st'"
  using assms
proof (induction env needed st rule: scrollForCards.induct)
  case (1 env needed st)
  show ?case
  proof (cases "length (allCards st) < needed \<and> scrollAttempts st < maxScrollAttempts")
    case False
    with "1.prems" show ?thesis by (simp add: scrollForCards.simps)
  next
    case True
    obtain r1 w1 where a: "scrollFeed env 2000 (world st) = (r1, w1)"
      by (cases "scrollFeed env 2000 (world st)")
    obtain r2 w2 where b: "waitForTimeout env 1500 w1 = (r2, w2)"
      by (cases "waitForTimeout env 1500 w1")
    obtain r3 w3 where c: "queryCards env w2 = (r3, w3)"
      by (cases "queryCards env w2")
    show ?thesis
    proof (cases "\<exists>x y cards. r1 = Inr x \<and> r2 = Inr y \<and> r3 = Inr cards")
      case False
      with "1.prems" True a b c show ?thesis
        by (subst (asm) scrollForCards.simps) (auto split: sum.splits)
    next
      case ok: True
      then obtain x y cards where r: "r1 = Inr x" "r2 = Inr y" "r3 = Inr cards" by blast
      with "1.prems" True a b c
      have "scrollForCards env needed
              (st\<lparr>world := w3, allCards := cards, scrollAttempts := scrollAttempts st + 1\<rparr>)
            = (e, st')"
        by (subst (asm) scrollForCards.simps) simp
      from "1.IH" [OF True a [symmetric] _ b [symmetric] _ c [symmetric] _ this] r
      show ?thesis by simp
    qed
  qed
qed

lemma loadCards_frame:
  assumes "loadCards env tr buffer st = (e, st')"
  shows "results st' = results st \<and> newFound st' = newFound st
         \<and> processedUrls st' = processedUrls st \<and> extracted st' = extracted st
         \<and> committed st' = committed st \<and> progressCalls st' = progressCalls st
         \<and> currentUpdatedIndex st' = currentUpdatedIndex st
         \<and> scrollAttempts st \<le> scrollAttempts st'"
proof (cases "length (allCards st) < currentUpdatedIndex st + tr + buffer")
  case False
  with assms show ?thesis by (simp add: loadCards_def)
next
  case True
  obtain r w1 where q: "queryCards env (world st) = (r, w1)"
    by (cases "queryCards env (world st)")
  show ?thesis
  proof (cases r)
    case (Inl err)
    with assms True q show ?thesis by (auto simp: loadCards_def)
  next
    case (Inr cards)
    with assms True q
    have "scrollForCards env (currentUpdatedIndex st + tr + buffer)
            (st\<lparr>world := w1, allCards := cards\<rparr>) = (e, st')"
      by (simp add: loadCards_def)
    from scrollForCards_frame [OF this] show ?thesis by simp
  qed
qed

lemma runInvariant_frame:
  assumes "runInvariant ex tr st"
    and "results st' = results st" "newFound st' = newFound st"
    and "processedUrls st' = processedUrls st" "extracted st' = extracted st"
    and "committed st' = committed st" "progressCalls st' = progressCalls st"
  shows "runInvariant ex tr st'"
  using assms by (simp add: runInvariant_def)

lemma scrapeLoop_inv:
  assumes "scrapeLoop fuel env s l tr sid buffer ex st = Some (e, st')"
    and "runInvariant ex tr st"
  shows "runInvariant ex tr st'"
  using assms
proof (induction fuel arbitrary: st)
  case 0
  then show ?case
    by (subst (asm) scrapeLoop.simps) (simp split: if_splits)
next
  case (Suc fuel)
  show ?case
  proof (cases "newFound st < tr \<and> scrollAttempts st < maxScrollAttempts")
    case False
    with Suc.prems show ?thesis
      by (subst (asm) scrapeLoop.simps) auto
  next
    case True
    obtain e1 st1 where ld: "loadCards env tr buffer st = (e1, st1)"
      by (cases "loadCards env tr buffer st")
    note f1 = loadCards_frame [OF ld]
    have inv1: "runInvariant ex tr st1"
      by (rule runInvariant_frame [OF Suc.prems(2)]) (simp_all add: f1)
    show ?thesis
    proof (cases e1)
      case (Some err)
      with Suc.prems(1) True ld have "st' = st1"
        by (subst (asm) scrapeLoop.simps) simp
      with inv1 show ?thesis by simp
    next
      case None
      obtain q st2 where cu: "collectUrls env ex tr (currentUpdatedIndex st1)
          (drop (currentUpdatedIndex st1) (allCards st1)) [] st1 = (q, st2)"
        by (cases "collectUrls env ex tr (currentUpdatedIndex st1)
          (drop (currentUpdatedIndex st1) (allCards st1)) [] st1")
      from collectUrls_effect [OF cu] have
        fr: "results st2 = results st1" "newFound st2 = newFound st1"
          "extracted st2 = extracted st1" "committed st2 = committed st1"
          "progressCalls st2 = progressCalls st1"
        and q: "distinct (map fst q)" "set (map fst q) \<inter> (processedUrls st1 \<union> ex) = {}"
          "processedUrls st2 = processedUrls st1 \<union> set (map fst q)"
        by auto
      have inv2: "runInvariant ex tr st2"
        using inv1 fr q by (auto simp: runInvariant_def)
      have q2: "set (map fst q) \<inter> set (extracted st2) = {}"
        using inv1 fr q by (auto simp: runInvariant_def)
      have q3: "set (map fst q) \<subseteq> processedUrls st2" using q by auto
      obtain e3 st3 where pr: "processUrls env s l tr sid q st2 = (e3, st3)"
        by (cases "processUrls env s l tr sid q st2")
      from processUrls_inv [OF pr inv2 q(1) q2 q3] have inv3: "runInvariant ex tr st3" by simp
      show ?thesis
      proof (cases e3)
        case (Some err)
        with Suc.prems(1) True ld None cu pr have "st' = st3"
          by (subst (asm) scrapeLoop.simps) simp
        with inv3 show ?thesis by simp
      next
        case n3: None
        define st4 where "st4 = (if newFound st3 < tr
                          then st3\<lparr>currentUpdatedIndex := length (allCards st3)\<rparr>
                          else st3)"
        have "runInvariant ex tr st4"
          using inv3 by (simp add: st4_def runInvariant_def)
        moreover have "scrapeLoop fuel env s l tr sid buffer ex st4 = Some (e, st')"
          using Suc.prems(1) True ld None cu pr n3 unfolding st4_def
          by (subst (asm) scrapeLoop.simps) simp
        ultimately show ?thesis by (rule Suc.IH [rotated])
      qed
    qed
  qed
qed

lemma initialState_inv: "runInvariant ex tr (initialState idx w)"
  by (simp add: runInvariant_def initialState_def)

lemma scrapeTry_inv:
  assumes "scrapeTry fuel env s l m idx sid des buf ex w = Some (c, st)"
  shows "runInvariant ex (targetOf des m) st
         \<and> (\<forall>r. c = Returns r \<longrightarrow> rResults r = results st \<and> rNewFound r = length (results st)
                \<and> rUpdatedIndex r = currentUpdatedIndex st)"
proof -
  let ?tr = "targetOf des m"
  let ?st0 = "initialState idx w :: ('a, 'b) scrape_state"
  obtain o1 w1 where os: "openSearch env s l w = (o1, w1)"
    by (cases "openSearch env s l w")
  have inv0: "runInvariant ex ?tr (?st0\<lparr>world := w1\<rparr>)"
    using initialState_inv [of ex ?tr idx w] by (simp add: runInvariant_def)
  show ?thesis
  proof (cases o1)
    case (Inl err)
    with assms os inv0 show ?thesis by (auto simp: scrapeTry_def Let_def)
  next
    case (Inr scrollable)
    show ?thesis
    proof (cases scrollable)
      case False
      with assms os Inr inv0 show ?thesis
        by (auto simp: scrapeTry_def Let_def initialState_def)
    next
      case True
      obtain e st1 where lp: "scrapeLoop fuel env s l ?tr sid buf ex (?st0\<lparr>world := w1\<rparr>) = Some (e, st1)"
        using assms os Inr True by (auto simp: scrapeTry_def Let_def split: option.splits)
      from scrapeLoop_inv [OF lp inv0] have inv1: "runInvariant ex ?tr st1" .
      then have len: "length (results st1) \<le> ?tr" by (simp add: runInvariant_def)
      show ?thesis
      proof (cases e)
        case (Some err)
        with assms os Inr True lp inv1 show ?thesis
          by (auto simp: scrapeTry_def Let_def)
      next
        case None
        with assms os Inr True lp len
        have "st = st1\<lparr>results := results st1\<rparr>"
          and "c = Returns \<lparr>rNewFound = length (results st1),
                  rUpdatedIndex = currentUpdatedIndex st1, rResults = results st1\<rparr>"
          by (auto simp: scrapeTry_def Let_def finish_def)
        with inv1 show ?thesis by simp
      qed
    qed
  qed
qed

lemma scrapeUrlsAndDetails_inv:
  assumes "scrapeUrlsAndDetails fuel env s l m idx sid des buf ex w = Some (r, st)"
  shows "runInvariant ex (targetOf des m) st \<and> rResults r = results st
         \<and> rNewFound r = length (results st) \<and> rUpdatedIndex r = currentUpdatedIndex st"
proof -
  from assms obtain c where t: "scrapeTry fuel env s l m idx sid des buf ex w = Some (c, st)"
    by (auto simp: scrapeUrlsAndDetails_def split: option.splits prod.splits completion.splits)
  from scrapeTry_inv [OF t] assms t show ?thesis
    by (cases c) (auto simp: scrapeUrlsAndDetails_def)
qed

section \<open>What the progress callback is given\<close>

lemma callbackLog_fields:
  assumes "callbackLog env calls"
  shows "calls (snd (progressCb env percent snapshot w)) = calls w @ [(percent, snapshot)]"
    and "calls (snd (gotoMaps env s l t w)) = calls w"
    and "calls (snd (gotoUrl env u t w)) = calls w"
    and "calls (snd (waitForTimeout env ms w)) = calls w"
    and "calls (snd (waitForSelector env sel t w)) = calls w"
    and "calls (snd (queryFeed env w)) = calls w"
    and "calls (snd (queryCards env w)) = calls w"
    and "calls (snd (scrollFeed env px w)) = calls w"
    and "calls (snd (getHref env c w)) = calls w"
    and "calls (snd (readFields env w)) = calls w"
    and "calls (snd (dbInsert env row w)) = calls w"
  using assms by (simp_all add: callbackLog_def)

lemma andThen_calls:
  assumes "\<And>w. calls (snd (m w)) = calls w" and "\<And>x w. calls (snd (f x w)) = calls w"
  shows "calls (snd (andThen m f w)) = calls w"
proof (cases "m w")
  case (Pair r w1)
  with assms(1) [of w] have "calls w1 = calls w" by simp
  with Pair assms(2) show ?thesis
    by (cases r) (simp_all add: andThen_def)
qed

lemma scrollTimes_calls:
  assumes "callbackLog env calls"
  shows "calls (snd (scrollTimes env n w)) = calls w"
proof (induction n arbitrary: w)
  case 0
  show ?case by simp
next
  case (Suc n)
  show ?case
    unfolding scrollTimes.simps
    by (intro andThen_calls callbackLog_fields [OF assms] Suc)
qed

lemma scrollToPosition_calls:
  assumes "callbackLog env calls"
  shows "calls (snd (scrollToPosition env i w)) = calls w"
  unfolding scrollToPosition_def
  by (intro andThen_calls callbackLog_fields [OF assms])
    (simp add: scrollTimes_calls [OF assms])

lemma reloadPageAndScrollToPosition_calls:
  assumes "callbackLog env calls"
  shows "calls (reloadPageAndScrollToPosition env s l i w) = calls w"
  unfolding reloadPageAndScrollToPosition_def
  by (intro andThen_calls callbackLog_fields [OF assms] scrollToPosition_calls [OF assms])

lemma navigateBackToList_calls:
  assumes "callbackLog env calls"
  shows "calls (navigateBackToList env s l i w) = calls w"
proof -
  let ?m = "andThen (gotoMaps env s l 15000) (\<lambda>_.
           andThen (waitForTimeout env 2000) (\<lambda>_.
           andThen (waitForSelector env CardLinks 15000) (\<lambda>_.
           scrollToPosition env i)))"
  have "calls (snd (?m w)) = calls w"
    by (intro andThen_calls callbackLog_fields [OF assms] scrollToPosition_calls [OF assms])
  then show ?thesis
    by (cases "?m w")
      (auto simp: navigateBackToList_def reloadPageAndScrollToPosition_calls [OF assms]
        split: sum.splits)
qed

lemma extractBusinessDetails_calls:
  assumes "callbackLog env calls"
  shows "calls (snd (extractBusinessDetails env u w)) = calls w"
proof -
  let ?m = "andThen (gotoUrl env u 60000) (\<lambda>_.
           andThen (waitForSelector env RoleMain 10000) (\<lambda>_.
           andThen (waitForTimeout env 500) (\<lambda>_.
           readFields env)))"
  have "calls (snd (?m w)) = calls w"
    by (intro andThen_calls callbackLog_fields [OF assms])
  then show ?thesis
    by (cases "?m w") (auto simp: extractBusinessDetails_def split: sum.splits)
qed

lemma insertAttempts_calls:
  assumes "callbackLog env calls"
  shows "calls (snd (insertAttempts env row n w)) = calls w"
proof (induction n arbitrary: w)
  case 0
  show ?case by simp
next
  case (Suc n)
  obtain r w1 where d: "dbInsert env row w = (r, w1)" by (cases "dbInsert env row w")
  with callbackLog_fields(11) [OF assms, of row w] have "calls w1 = calls w" by simp
  with d Suc show ?case by (cases r) simp_all
qed

lemma failedInserts_calls:
  assumes "callbackLog env calls" and "failedInserts env row k w = Some w'"
  shows "calls w' = calls w"
  using assms(2)
proof (induction k arbitrary: w)
  case 0
  then show ?case by simp
next
  case (Suc k)
  obtain r w1 where d: "dbInsert env row w = (r, w1)" by (cases "dbInsert env row w")
  with callbackLog_fields(11) [OF assms(1), of row w] have "calls w1 = calls w" by simp
  with d Suc show ?case by (cases r) simp_all
qed

lemma failedInserts_then:
  assumes "failedInserts env row k w = Some wk"
    and "dbInsert env row wk = (reply, w')" and "reply = DuplicateKey \<or> reply = Inserted"
  shows "insertAttempts env row (Suc (k + j)) w = (True, w')"
  using assms(1)
proof (induction k arbitrary: w)
  case 0
  with assms(2,3) show ?case by auto
next
  case (Suc k)
  obtain r w1 where d: "dbInsert env row w = (r, w1)" by (cases "dbInsert env row w")
  with Suc.prems have r: "r = InsertFailed" and f: "failedInserts env row k w1 = Some wk"
    by (cases r; simp)+
  from Suc.IH [OF f] d r show ?case by simp
qed

lemma catchProcessing_calls:
  assumes "callbackLog env calls" and "catchProcessing env s l i t st = (e, st')"
  shows "calls (world st') = calls (world st)"
  using assms(2)
  by (auto simp: catchProcessing_def recoverAndAdvance_def Let_def
      reloadPageAndScrollToPosition_calls [OF assms(1)]
      split: thrown.splits page_error.splits)

lemma recordSuccess_calls:
  assumes "callbackLog env calls" and "recordSuccess env tr d st = (reply, st')"
  shows "calls (world st')
         = calls (world st) @ [(jsPercent (newFound st + 1) tr, results st @ [d])]"
proof -
  let ?c = "progressCb env (jsPercent (newFound st + 1) tr) (results st @ [d]) (world st)"
  from assms(2) have "world st' = snd ?c"
    by (auto simp: recordSuccess_def Let_def split: prod.splits)
  with callbackLog_fields(1) [OF assms(1)] show ?thesis by simp
qed

text \<open>What a candidate whose insert is reported as done leaves behind.\<close>

lemma processUrl_commit:
  assumes nav: "andThen (gotoUrl env u 30000) (\<lambda>_. waitForTimeout env 2000) (world st)
                = (Inr x, w1)"
    and ext: "extractBusinessDetails env u w1 = (d, w2)"
    and full: "BusinessName d \<noteq> []" "Address d \<noteq> []" "PhoneNumber d \<noteq> []"
    and iw: "insertWithRetry env (withSession sid (mapToSupabaseColumns d)) 3 w2 = (True, w3)"
    and step: "processUrl env s l tr sid u i st = (e, st')"
  shows "newFound st' = newFound st + 1 \<and> results st' = results st @ [d]
         \<and> progressCalls st'
             = progressCalls st @ [(jsPercent (newFound st + 1) tr, results st @ [d])]
         \<and> (callbackLog env calls
            \<longrightarrow> calls (world st')
                = calls w3 @ [(jsPercent (newFound st + 1) tr, results st @ [d])])"
proof -
  define st3 where "st3 = st\<lparr>extracted := extracted st @ [u], world := w3,
      committed := committed st @ [withSession sid (mapToSupabaseColumns d)]\<rparr>"
  obtain rp st4 where rs: "recordSuccess env tr d st3 = (rp, st4)"
    by (cases "recordSuccess env tr d st3")
  note eff = recordSuccess_effect [OF rs]
  have tail: "(case rp of
               CbThrew t \<Rightarrow> catchProcessing env s l i t st4
             | CbReturned \<Rightarrow>
                 (None,
                  st4\<lparr>world := navigateBackToList env s l (i + 1) (world st4),
                      currentUpdatedIndex := i + 1\<rparr>)) = (e, st')"
    using nav ext full iw rs step unfolding st3_def
    by (auto simp: processUrl_def Let_def split: prod.splits)
  then have fr: "newFound st' = newFound st4 \<and> results st' = results st4
             \<and> progressCalls st' = progressCalls st4"
    by (cases rp) (auto dest: catchProcessing_frame)
  have "calls (world st')
        = calls w3 @ [(jsPercent (newFound st + 1) tr, results st @ [d])]"
    if cl: "callbackLog env calls"
  proof -
    have "calls (world st') = calls (world st4)"
      using tail
      by (cases rp)
        (auto simp: navigateBackToList_calls [OF cl] dest: catchProcessing_calls [OF cl])
    with recordSuccess_calls [OF cl rs] show ?thesis by (simp add: st3_def)
  qed
  with eff fr show ?thesis by (simp add: st3_def)
qed

lemma processUrl_calls:
  assumes cl: "callbackLog env calls"
    and step: "processUrl env s l tr sid u i st = (e, st')"
    and j: "calls (world st) = before @ progressCalls st"
  shows "calls (world st') = before @ progressCalls st'"
proof (cases "andThen (gotoUrl env u 30000) (\<lambda>_. waitForTimeout env 2000) (world st)")
  case (Pair nav w1)
  have "calls (snd (andThen (gotoUrl env u 30000) (\<lambda>_. waitForTimeout env 2000) (world st)))
        = calls (world st)"
    by (intro andThen_calls callbackLog_fields [OF cl])
  with Pair have c1: "calls w1 = calls (world st)" by simp
  show ?thesis
  proof (cases nav)
    case (Inl err)
    with Pair step have c: "catchProcessing env s l i (ErrorObject err) (st\<lparr>world := w1\<rparr>) = (e, st')"
      by (simp add: processUrl_def)
    from catchProcessing_calls [OF cl c] catchProcessing_frame [OF c] c1 j
    show ?thesis by simp
  next
    case (Inr unit)
    obtain d w2 where ex: "extractBusinessDetails env u w1 = (d, w2)"
      by (cases "extractBusinessDetails env u w1")
    with extractBusinessDetails_calls [OF cl, of u w1] have c2: "calls w2 = calls w1" by simp
    show ?thesis
    proof (cases "BusinessName d = [] \<or> Address d = [] \<or> PhoneNumber d = []")
      case True
      with Pair Inr ex step
      have "st' = st\<lparr>world := w2, extracted := extracted st @ [u]\<rparr>\<lparr>currentUpdatedIndex := i + 1\<rparr>"
        by (auto simp: processUrl_def)
      with c1 c2 j show ?thesis by simp
    next
      case False
      define row where "row = withSession sid (mapToSupabaseColumns d)"
      obtain ok w3 where ins: "insertWithRetry env row 3 w2 = (ok, w3)"
        by (cases "insertWithRetry env row 3 w2")
      with insertAttempts_calls [OF cl, of row 3 w2] have c3: "calls w3 = calls w2"
        by (simp add: insertWithRetry_def)
      show ?thesis
      proof (cases ok)
        case True
        from False have full: "BusinessName d \<noteq> []" "Address d \<noteq> []" "PhoneNumber d \<noteq> []"
          by simp_all
        from ins True
        have ins': "insertWithRetry env (withSession sid (mapToSupabaseColumns d)) 3 w2 = (True, w3)"
          by (simp add: row_def)
        from Pair Inr
        have nav': "andThen (gotoUrl env u 30000) (\<lambda>_. waitForTimeout env 2000) (world st)
                    = (Inr unit, w1)" by simp
        from processUrl_commit [OF nav' ex full ins' step, of calls] cl c1 c2 c3 j
        show ?thesis by simp
      next
        case nok: False
        with Pair Inr ex step False ins
        have "st' = st\<lparr>world := navigateBackToList env s l (i + 1) w3,
                     extracted := extracted st @ [u],
                     committed := committed st @ [row], currentUpdatedIndex := i + 1\<rparr>"
          unfolding row_def
          by (auto simp add: processUrl_def Let_def split: prod.splits)
        with navigateBackToList_calls [OF cl] c1 c2 c3 j show ?thesis by simp
      qed
    qed
  qed
qed

lemma processUrls_calls:
  assumes cl: "callbackLog env calls"
    and "processUrls env s l tr sid q st = (e, st')"
    and "calls (world st) = before @ progressCalls st"
  shows "calls (world st') = before @ progressCalls st'"
  using assms(2,3)
proof (induction q arbitrary: st)
  case Nil
  then show ?case by simp
next
  case (Cons a q)
  obtain u i where a: "a = (u, i)" by (cases a)
  show ?case
  proof (cases "newFound st < tr")
    case False
    with Cons.prems a show ?thesis by simp
  next
    case True
    obtain e1 st1 where p: "processUrl env s l tr sid u i st = (e1, st1)"
      by (cases "processUrl env s l tr sid u i st")
    note one = processUrl_calls [OF cl p Cons.prems(2)]
    show ?thesis
    proof (cases e1)
      case (Some err)
      with Cons.prems(1) a True p one show ?thesis by simp
    next
      case None
      with Cons.prems(1) a True p
      have "processUrls env s l tr sid q st1 = (e, st')" by simp
      from Cons.IH [OF this one] show ?thesis .
    qed
  qed
qed

lemma collectUrls_calls:
  assumes cl: "callbackLog env calls"
    and "collectUrls env ex tr i cards q st = (q', st')"
  shows "calls (world st') = calls (world st)"
  using assms(2)
proof (induction cards arbitrary: i q st)
  case Nil
  then show ?case by simp
next
  case (Cons c cards)
  obtain r w1 where h: "getHref env c (world st) = (r, w1)"
    by (cases "getHref env c (world st)")
  with callbackLog_fields(9) [OF cl, of c "world st"] have c1: "calls w1 = calls (world st)"
    by simp
  show ?case
  proof (cases r)
    case (Inl err)
    with Cons.prems h
    have "collectUrls env ex tr (i + 1) cards q (st\<lparr>world := w1\<rparr>) = (q', st')" by simp
    from Cons.IH [OF this] c1 show ?thesis by simp
  next
    case (Inr u)
    consider (seen) "u \<in> processedUrls st \<or> u \<in> ex"
      | (stop) "u \<notin> processedUrls st" "u \<notin> ex"
          "int tr - int (newFound st) + 5 \<le> int (length (q @ [(u, i)]))"
      | (more) "u \<notin> processedUrls st" "u \<notin> ex"
          "\<not> int tr - int (newFound st) + 5 \<le> int (length (q @ [(u, i)]))"
      by blast
    then show ?thesis
    proof cases
      case seen
      with Cons.prems h Inr
      have "collectUrls env ex tr (i + 1) cards q
              (st\<lparr>world := w1, duplicatesSkipped := duplicatesSkipped st + 1\<rparr>) = (q', st')"
        by (auto split: if_splits)
      from Cons.IH [OF this] c1 show ?thesis by simp
    next
      case stop
      with Cons.prems h Inr
      have "st' = st\<lparr>world := w1, processedUrls := insert u (processedUrls st)\<rparr>"
        by (simp_all add: Let_def)
      with c1 show ?thesis by simp
    next
      case more
      with Cons.prems h Inr
      have "collectUrls env ex tr (i + 1) cards (q @ [(u, i)])
              (st\<lparr>world := w1, processedUrls := insert u (processedUrls st)\<rparr>) = (q', st')"
        by (simp add: Let_def)
      from Cons.IH [OF this] c1 show ?thesis by simp
    qed
  qed
qed

lemma scrollForCards_calls:
  assumes cl: "callbackLog env calls"
    and "scrollForCards env needed st = (e, st')"
  shows "calls (world st') = calls (world st)"
  using assms
proof (induction env needed st rule: scrollForCards.induct)
  case (1 env needed st)
  note cl = "1.prems"(1)
  show ?case
  proof (cases "length (allCards st) < needed \<and> scrollAttempts st < maxScrollAttempts")
    case False
    with "1.prems"(2) show ?thesis by (simp add: scrollForCards.simps)
  next
    case True
    obtain r1 w1 where a: "scrollFeed env 2000 (world st) = (r1, w1)"
      by (cases "scrollFeed env 2000 (world st)")
    obtain r2 w2 where b: "waitForTimeout env 1500 w1 = (r2, w2)"
      by (cases "waitForTimeout env 1500 w1")
    obtain r3 w3 where c: "queryCards env w2 = (r3, w3)"
      by (cases "queryCards env w2")
    from a b c callbackLog_fields(8) [OF cl, of 2000 "world st"]
      callbackLog_fields(4) [OF cl, of 1500 w1] callbackLog_fields(7) [OF cl, of w2]
    have cs: "calls w1 = calls (world st)" "calls w2 = calls (world st)"
      "calls w3 = calls (world st)" by simp_all
    show ?thesis
    proof (cases "\<exists>x y cards. r1 = Inr x \<and> r2 = Inr y \<and> r3 = Inr cards")
      case False
      with "1.prems"(2) True a b c cs show ?thesis
        by (subst (asm) scrollForCards.simps) (auto split: sum.splits)
    next
      case ok: True
      then obtain x y cards where r: "r1 = Inr x" "r2 = Inr y" "r3 = Inr cards" by blast
      with "1.prems"(2) True a b c
      have "scrollForCards env needed
              (st\<lparr>world := w3, allCards := cards, scrollAttempts := scrollAttempts st + 1\<rparr>)
            = (e, st')"
        by (subst (asm) scrollForCards.simps) simp
      from "1.IH" [OF True a [symmetric] _ b [symmetric] _ c [symmetric] _ cl this] r cs
      show ?thesis by simp
    qed
  qed
qed

lemma loadCards_calls:
  assumes cl: "callbackLog env calls"
    and "loadCards env tr buffer st = (e, st')"
  shows "calls (world st') = calls (world st)"
proof (cases "length (allCards st) < currentUpdatedIndex st + tr + buffer")
  case False
  with assms(2) show ?thesis by (simp add: loadCards_def)
next
  case True
  obtain r w1 where q: "queryCards env (world st) = (r, w1)"
    by (cases "queryCards env (world st)")
  with callbackLog_fields(7) [OF cl, of "world st"] have c1: "calls w1 = calls (world st)"
    by simp
  show ?thesis
  proof (cases r)
    case (Inl err)
    with assms(2) True q c1 show ?thesis by (auto simp: loadCards_def)
  next
    case (Inr cards)
    with assms(2) True q
    have "scrollForCards env (currentUpdatedIndex st + tr + buffer)
            (st\<lparr>world := w1, allCards := cards\<rparr>) = (e, st')"
      by (simp add: loadCards_def)
    from scrollForCards_calls [OF cl this] c1 show ?thesis by simp
  qed
qed

lemma scrapeLoop_calls:
  assumes cl: "callbackLog env calls"
    and "scrapeLoop fuel env s l tr sid buffer ex st = Some (e, st')"
    and "calls (world st) = before @ progressCalls st"
  shows "calls (world st') = before @ progressCalls st'"
  using assms(2,3)
proof (induction fuel arbitrary: st)
  case 0
  then show ?case
    by (subst (asm) scrapeLoop.simps) (simp split: if_splits)
next
  case (Suc fuel)
  show ?case
  proof (cases "newFound st < tr \<and> scrollAttempts st < maxScrollAttempts")
    case False
    with Suc.prems show ?thesis
      by (subst (asm) scrapeLoop.simps) auto
  next
    case True
    obtain e1 st1 where ld: "loadCards env tr buffer st = (e1, st1)"
      by (cases "loadCards env tr buffer st")
    from loadCards_calls [OF cl ld] loadCards_frame [OF ld] Suc.prems(2)
    have j1: "calls (world st1) = before @ progressCalls st1" by simp
    show ?thesis
    proof (cases e1)
      case (Some err)
      with Suc.prems(1) True ld have "st' = st1"
        by (subst (asm) scrapeLoop.simps) simp
      with j1 show ?thesis by simp
    next
      case None
      obtain q st2 where cu: "collectUrls env ex tr (currentUpdatedIndex st1)
          (drop (currentUpdatedIndex st1) (allCards st1)) [] st1 = (q, st2)"
        by (cases "collectUrls env ex tr (currentUpdatedIndex st1)
          (drop (currentUpdatedIndex st1) (allCards st1)) [] st1")
      from collectUrls_calls [OF cl cu] collectUrls_effect [OF cu] j1
      have j2: "calls (world st2) = before @ progressCalls st2" by simp
      obtain e3 st3 where pr: "processUrls env s l tr sid q st2 = (e3, st3)"
        by (cases "processUrls env s l tr sid q st2")
      note j3 = processUrls_calls [OF cl pr j2]
      show ?thesis
      proof (cases e3)
        case (Some err)
        with Suc.prems(1) True ld None cu pr have "st' = st3"
          by (subst (asm) scrapeLoop.simps) simp
        with j3 show ?thesis by simp
      next
        case n3: None
        define st4 where "st4 = (if newFound st3 < tr
                          then st3\<lparr>currentUpdatedIndex := length (allCards st3)\<rparr>
                          else st3)"
        have "calls (world st4) = before @ progressCalls st4"
          using j3 by (simp add: st4_def)
        moreover have "scrapeLoop fuel env s l tr sid buffer ex st4 = Some (e, st')"
          using Suc.prems(1) True ld None cu pr n3 unfolding st4_def
          by (subst (asm) scrapeLoop.simps) simp
        ultimately show ?thesis by (rule Suc.IH [rotated])
      qed
    qed
  qed
qed

lemma openSearch_calls:
  assumes "callbackLog env calls"
  shows "calls (snd (openSearch env s l w)) = calls w"
  unfolding openSearch_def
  by (intro andThen_calls callbackLog_fields [OF assms])

lemma scrapeUrlsAndDetails_calls:
  assumes cl: "callbackLog env calls"
    and run: "scrapeUrlsAndDetails fuel env s l m idx sid des buf ex w = Some (r, st)"
  shows "calls (world st) = calls w @ progressCalls st"
proof -
  let ?tr = "targetOf des m"
  let ?st0 = "initialState idx w :: ('a, 'b) scrape_state"
  obtain o1 w1 where os: "openSearch env s l w = (o1, w1)"
    by (cases "openSearch env s l w")
  with openSearch_calls [OF cl, of s l w] have c1: "calls w1 = calls w" by simp
  then have j0: "calls (world (?st0\<lparr>world := w1\<rparr>)) = calls w @ progressCalls (?st0\<lparr>world := w1\<rparr>)"
    by (simp add: initialState_def)
  show ?thesis
  proof (cases o1)
    case (Inl err)
    with run os have "st = ?st0\<lparr>world := w1\<rparr>"
      by (auto simp: scrapeUrlsAndDetails_def scrapeTry_def Let_def)
    with j0 show ?thesis by simp
  next
    case (Inr scrollable)
    show ?thesis
    proof (cases scrollable)
      case False
      with run os Inr have "st = ?st0\<lparr>world := w1\<rparr>"
        by (auto simp: scrapeUrlsAndDetails_def scrapeTry_def Let_def)
      with j0 show ?thesis by simp
    next
      case True
      obtain e st1 where lp: "scrapeLoop fuel env s l ?tr sid buf ex (?st0\<lparr>world := w1\<rparr>) = Some (e, st1)"
        using run os Inr True
        by (auto simp: scrapeUrlsAndDetails_def scrapeTry_def Let_def split: option.splits)
      note j1 = scrapeLoop_calls [OF cl lp j0]
      have "world st = world st1 \<and> progressCalls st = progressCalls st1"
        using run os Inr True lp
        by (cases e) (auto simp: scrapeUrlsAndDetails_def scrapeTry_def Let_def finish_def)
      with j1 show ?thesis by simp
    qed
  qed
qed

section \<open>Rounding to binary64\<close>

lemma pow2_bitlen_bounds:
  fixes a :: int
  assumes "0 < a"
  shows "(2::rat) powi (bitlen a - 1) \<le> of_int a \<and> of_int a < (2::rat) powi (bitlen a)"
proof -
  from assms have ge: "1 \<le> bitlen a" by (auto simp: bitlen_alt_def)
  from bitlen_bounds [OF assms]
  have "(2::int) ^ nat (bitlen a - 1) \<le> a" and "a < 2 ^ nat (bitlen a)" by simp_all
  then have "(of_int ((2::int) ^ nat (bitlen a - 1)) :: rat) \<le> of_int a"
    and "(of_int a :: rat) < of_int (2 ^ nat (bitlen a))"
    by (simp_all only: of_int_le_iff of_int_less_iff)
  then show ?thesis using ge by (simp add: power_int_def)
qed

lemma floorLog2_bounds:
  assumes "0 < x"
  shows "2 powi floorLog2 x \<le> x \<and> x < 2 powi (floorLog2 x + 1)"
proof -
  obtain a b where q: "quotient_of x = (a, b)" by (cases "quotient_of x")
  then have b: "0 < b" and x: "x = of_int a / of_int b"
    by (simp_all add: quotient_of_denom_pos quotient_of_div)
  from assms x b have a: "0 < a"
    by (simp add: zero_less_divide_iff)
  let ?k = "bitlen a - bitlen b"
  note A = pow2_bitlen_bounds [OF a]
  note B = pow2_bitlen_bounds [OF b]
  have bpos: "(0::rat) < of_int b" using b by simp
  have up: "x < 2 powi (?k + 1)"
  proof -
    have "x < 2 powi (bitlen a) / of_int b"
      unfolding x using A bpos by (simp add: divide_strict_right_mono)
    also have "\<dots> \<le> 2 powi (bitlen a) / 2 powi (bitlen b - 1)"
      using B bpos by (intro divide_left_mono mult_pos_pos) simp_all
    also have "\<dots> = 2 powi (bitlen a - (bitlen b - 1))"
      by (simp add: power_int_diff)
    finally show ?thesis by (simp add: algebra_simps)
  qed
  have low: "2 powi (?k - 1) \<le> x"
  proof -
    have "2 powi (?k - 1) = (2::rat) powi (bitlen a - 1) / 2 powi (bitlen b)"
      by (simp add: power_int_diff [symmetric] algebra_simps)
    also have "\<dots> \<le> of_int a / 2 powi (bitlen b)"
      using A by (simp add: divide_right_mono)
    also have "\<dots> \<le> of_int a / of_int b"
      using B a bpos by (intro divide_left_mono mult_pos_pos) simp_all
    finally show ?thesis by (simp add: x)
  qed
  show ?thesis
  proof (cases "2 powi ?k \<le> x")
    case True
    then have "floorLog2 x = ?k" by (simp add: floorLog2_def q)
    with True up show ?thesis by simp
  next
    case False
    then have "floorLog2 x = ?k - 1" by (simp add: floorLog2_def q)
    with False low show ?thesis by simp
  qed
qed

lemma roundHalfEven_range: "\<lfloor>q\<rfloor> \<le> roundHalfEven q \<and> roundHalfEven q \<le> \<lfloor>q\<rfloor> + 1"
  by (simp add: roundHalfEven_def Let_def)

lemma roundHalfEven_of_int [simp]: "roundHalfEven (of_int n) = n"
  by (simp add: roundHalfEven_def)

lemma roundHalfEven_mono:
  assumes "a \<le> b"
  shows "roundHalfEven a \<le> roundHalfEven b"
proof (cases "\<lfloor>a\<rfloor> < \<lfloor>b\<rfloor>")
  case True
  with roundHalfEven_range [of a] roundHalfEven_range [of b] show ?thesis by linarith
next
  case False
  with assms have eq: "\<lfloor>a\<rfloor> = \<lfloor>b\<rfloor>" using floor_mono [OF assms] by simp
  with assms show ?thesis
    by (auto simp: roundHalfEven_def Let_def)
qed

lemma roundHalfEven_ge: "of_int n \<le> q \<Longrightarrow> n \<le> roundHalfEven q"
  using roundHalfEven_mono [of "of_int n" q] by simp

lemma roundHalfEven_le: "q \<le> of_int n \<Longrightarrow> roundHalfEven q \<le> n"
  using roundHalfEven_mono [of q "of_int n"] by simp

lemma binary64_pos:
  assumes "0 < x"
  shows "binary64 x = of_int (roundHalfEven (x / 2 powi (floorLog2 x - 52))) * 2 powi (floorLog2 x - 52)"
  using assms by (simp add: binary64_def Let_def)

lemma binary64_binade:
  assumes "0 < x"
  shows "2 powi floorLog2 x \<le> binary64 x \<and> binary64 x \<le> 2 powi (floorLog2 x + 1)"
proof -
  let ?e = "floorLog2 x"
  let ?ulp = "(2::rat) powi (?e - 52)"
  have ulp: "0 < ?ulp" by simp
  note bd = floorLog2_bounds [OF assms]
  have e1: "2 powi ?e = of_int (2 ^ 52) * ?ulp"
    by (simp add: power_int_diff)
  have e2: "2 powi (?e + 1) = of_int (2 ^ 53) * ?ulp"
    by (simp add: power_int_diff power_int_add)
  have "of_int (2 ^ 52) \<le> x / ?ulp"
    using bd ulp unfolding e1 by (simp add: pos_le_divide_eq)
  then have lo: "2 ^ 52 \<le> roundHalfEven (x / ?ulp)" by (rule roundHalfEven_ge)
  have "x / ?ulp \<le> of_int (2 ^ 53)"
    using bd ulp unfolding e2 by (simp add: pos_divide_le_eq del: of_int_numeral of_int_power)
  then have hi: "roundHalfEven (x / ?ulp) \<le> 2 ^ 53" by (rule roundHalfEven_le)
  have u0: "0 \<le> ?ulp" by simp
  from lo have "(of_int (2 ^ 52) :: rat) \<le> of_int (roundHalfEven (x / ?ulp))"
    by (simp only: of_int_le_iff)
  then have "of_int (2 ^ 52) * ?ulp \<le> of_int (roundHalfEven (x / ?ulp)) * ?ulp"
    using u0 by (rule mult_right_mono)
  moreover from hi have "(of_int (roundHalfEven (x / ?ulp)) :: rat) \<le> of_int (2 ^ 53)"
    by (simp only: of_int_le_iff)
  then have "of_int (roundHalfEven (x / ?ulp)) * ?ulp \<le> of_int (2 ^ 53) * ?ulp"
    using u0 by (rule mult_right_mono)
  ultimately show ?thesis
    unfolding binary64_pos [OF assms] e1 e2 by simp
qed

lemma binary64_nonneg: "0 \<le> x \<Longrightarrow> 0 \<le> binary64 x"
proof (cases "x = 0")
  case True
  then show ?thesis by (simp add: binary64_def)
next
  case False
  assume "0 \<le> x"
  with False have "0 < x" by simp
  from binary64_binade [OF this] have "2 powi floorLog2 x \<le> binary64 x" by simp
  moreover have "(0::rat) \<le> 2 powi floorLog2 x" by simp
  ultimately show ?thesis by linarith
qed

lemma binary64_mono:
  assumes "0 \<le> x" and "x \<le> y"
  shows "binary64 x \<le> binary64 y"
proof (cases "x = 0")
  case True
  with assms binary64_nonneg [of y] show ?thesis by (simp add: binary64_def)
next
  case False
  with assms have x: "0 < x" and y: "0 < y" by simp_all
  note bx = floorLog2_bounds [OF x] and by' = floorLog2_bounds [OF y]
  have lt: "(2::rat) powi floorLog2 x < 2 powi (floorLog2 y + 1)"
    using bx by' assms by linarith
  have le: "floorLog2 x \<le> floorLog2 y"
  proof (rule ccontr)
    assume "\<not> floorLog2 x \<le> floorLog2 y"
    then have "floorLog2 y + 1 \<le> floorLog2 x" by simp
    then have "(2::rat) powi (floorLog2 y + 1) \<le> 2 powi floorLog2 x"
      by (intro power_int_increasing) simp_all
    with lt show False by simp
  qed
  show ?thesis
  proof (cases "floorLog2 x = floorLog2 y")
    case True
    let ?ulp = "(2::rat) powi (floorLog2 y - 52)"
    have "x / ?ulp \<le> y / ?ulp"
      using assms by (simp add: divide_right_mono)
    then have "roundHalfEven (x / ?ulp) \<le> roundHalfEven (y / ?ulp)"
      by (rule roundHalfEven_mono)
    then have "of_int (roundHalfEven (x / ?ulp)) * ?ulp \<le> of_int (roundHalfEven (y / ?ulp)) * ?ulp"
      by (intro mult_right_mono) simp_all
    then show ?thesis
      by (simp add: binary64_pos [OF x] binary64_pos [OF y] True)
  next
    case False
    with le have "floorLog2 x + 1 \<le> floorLog2 y" by simp
    then have "(2::rat) powi (floorLog2 x + 1) \<le> 2 powi floorLog2 y"
      by (intro power_int_increasing) simp_all
    with binary64_binade [OF x] binary64_binade [OF y] show ?thesis by linarith
  qed
qed

lemma jsPercent_mono:
  assumes "n \<le> k"
  shows "jsPercent n t \<le> jsPercent k t"
proof -
  let ?q = "\<lambda>i. (of_nat i / of_nat t :: rat)"
  have q0: "0 \<le> ?q n" by simp
  have "?q n \<le> ?q k" using assms by (simp add: divide_right_mono)
  then have "binary64 (?q n) \<le> binary64 (?q k)"
    using q0 by (intro binary64_mono)
  then have "binary64 (?q n) * 100 \<le> binary64 (?q k) * 100" by simp
  moreover have "0 \<le> binary64 (?q n) * 100"
    using binary64_nonneg [OF q0] by simp
  ultimately have "binary64 (binary64 (?q n) * 100) \<le> binary64 (binary64 (?q k) * 100)"
    by (intro binary64_mono)
  then show ?thesis
    by (simp add: jsPercent_def jsMathRound_def floor_mono nat_mono)
qed

text \<open>
  The error of one rounding is at most half a unit in the last place, so the percentage
  is within \<open>1 / 2\<close> of the exact quotient, and it is the exact quotient rounded
  unless that lies halfway between two integers.
\<close>

lemma roundHalfEven_err: "\<bar>of_int (roundHalfEven q) - q\<bar> \<le> 1 / 2"
proof -
  have "of_int \<lfloor>q\<rfloor> \<le> q" "q < of_int \<lfloor>q\<rfloor> + 1" by linarith+
  then show ?thesis
    by (auto simp: roundHalfEven_def Let_def abs_le_iff)
qed

lemma binary64_err:
  assumes "0 < x"
  shows "\<bar>binary64 x - x\<bar> \<le> x / 2 ^ 53"
proof -
  let ?e = "floorLog2 x"
  let ?ulp = "(2::rat) powi (?e - 52)"
  let ?R = "of_int (roundHalfEven (x / ?ulp)) :: rat"
  have ulp: "0 < ?ulp" by simp
  have "\<bar>?R - x / ?ulp\<bar> \<le> 1 / 2" by (rule roundHalfEven_err)
  then have "\<bar>?R - x / ?ulp\<bar> * ?ulp \<le> 1 / 2 * ?ulp"
    using ulp by (intro mult_right_mono) simp_all
  moreover have "\<bar>?R - x / ?ulp\<bar> * ?ulp = \<bar>?R * ?ulp - x\<bar>"
  proof -
    have "\<bar>?R - x / ?ulp\<bar> * ?ulp = \<bar>(?R - x / ?ulp) * ?ulp\<bar>"
      using ulp by (simp add: abs_mult)
    also have "(?R - x / ?ulp) * ?ulp = ?R * ?ulp - x"
      using ulp by (simp add: field_simps)
    finally show ?thesis .
  qed
  moreover have "1 / 2 * ?ulp = 2 powi ?e / 2 ^ 53"
    by (simp add: power_int_diff)
  moreover have "2 powi ?e / 2 ^ 53 \<le> x / 2 ^ 53"
    using floorLog2_bounds [OF assms] by (simp add: divide_right_mono)
  ultimately show ?thesis
    unfolding binary64_pos [OF assms] by linarith
qed

lemma binary64_pos_pos: "0 < x \<Longrightarrow> 0 < binary64 x"
proof -
  assume "0 < x"
  from binary64_binade [OF this] have "2 powi floorLog2 x \<le> binary64 x" by simp
  moreover have "(0::rat) < 2 powi floorLog2 x" by simp
  ultimately show ?thesis by linarith
qed

lemma percent_product_err:
  assumes "0 < n" and "n \<le> t"
  shows "\<bar>binary64 (binary64 (of_nat n / of_nat t) * 100) - 100 * of_nat n / of_nat t\<bar>
         < 1 / 2 ^ 45"
proof -
  define a :: rat where "a = of_nat n / of_nat t"
  define q where "q = binary64 a"
  define p where "p = binary64 (q * 100)"
  define u :: rat where "u = 1 / 2 ^ 53"
  have a: "0 < a" "a \<le> 1" using assms by (simp_all add: a_def)
  have q: "0 < q" unfolding q_def using a by (intro binary64_pos_pos)
  have "\<bar>q - a\<bar> \<le> a * u" unfolding q_def u_def using binary64_err [OF a(1)] by simp
  moreover have "a * u \<le> u" using a by (simp add: u_def)
  ultimately have qa: "\<bar>q - a\<bar> \<le> u" by linarith
  then have q1: "q \<le> 1 + u" using a by linarith
  have "0 < q * 100" using q by simp
  from binary64_err [OF this] have "\<bar>p - q * 100\<bar> \<le> q * 100 * u"
    by (simp add: p_def u_def)
  moreover have "q * 100 * u \<le> (1 + u) * 100 * u"
    using q1 by (intro mult_right_mono) (simp_all add: u_def)
  ultimately have pq: "\<bar>p - q * 100\<bar> \<le> (1 + u) * 100 * u" by linarith
  have "\<bar>p - 100 * a\<bar> \<le> (1 + u) * 100 * u + 100 * u"
    using pq qa unfolding abs_le_iff by linarith
  also have "\<dots> < 1 / 2 ^ 45" by (simp add: u_def)
  finally show ?thesis by (simp add: p_def q_def a_def)
qed

lemma jsPercent_int:
  "int (jsPercent n t) = \<lfloor>binary64 (binary64 (of_nat n / of_nat t) * 100) + 1 / 2\<rfloor>"
proof -
  have "0 \<le> binary64 (binary64 (of_nat n / of_nat t) * 100)"
    by (intro binary64_nonneg mult_nonneg_nonneg) simp_all
  then have "0 \<le> \<lfloor>binary64 (binary64 (of_nat n / of_nat t) * 100) + 1 / 2\<rfloor>" by simp
  then show ?thesis by (simp add: jsPercent_def jsMathRound_def)
qed

lemma jsPercent_zero: "jsPercent 0 t = 0"
  by (simp add: jsPercent_def jsMathRound_def binary64_def)

lemma jsPercent_nearest:
  assumes t: "0 < t" "t \<le> 2 ^ 44" and nt: "n \<le> t"
  shows "\<bar>of_int (int (jsPercent n t)) - (100 * of_nat n / of_nat t :: rat)\<bar> \<le> 1 / 2"
    and "frac (100 * of_nat n / of_nat t :: rat) \<noteq> 1 / 2
         \<Longrightarrow> int (jsPercent n t) = round (100 * of_nat n / of_nat t :: rat)"
proof -
  define x :: rat where "x = 100 * of_nat n / of_nat t"
  define p where "p = binary64 (binary64 (of_nat n / of_nat t) * 100)"
  define d :: rat where "d = 1 / 2 ^ 45"
  have js: "int (jsPercent n t) = \<lfloor>p + 1 / 2\<rfloor>" by (simp add: jsPercent_int p_def)
  have err: "\<bar>p - x\<bar> < d"
  proof (cases "n = 0")
    case True
    then show ?thesis by (simp add: p_def x_def d_def binary64_def)
  next
    case False
    then have "0 < n" by simp
    from percent_product_err [OF this nt] show ?thesis by (simp add: p_def x_def d_def)
  qed
  define T :: rat where "T = 2 * of_nat t"
  have Tpos: "0 < T" using t by (simp add: T_def)
  have "(of_nat t :: rat) \<le> of_nat (2 ^ 44)" using t(2) by (simp only: of_nat_le_iff)
  then have "T \<le> 2 ^ 45" by (simp add: T_def)
  then have "1 / 2 ^ 45 \<le> 1 / T"
    using Tpos by (intro divide_left_mono) simp_all
  then have dt: "d \<le> 1 / T" by (simp add: d_def)
  have dhalf: "d < 1 / 2" by (simp add: d_def)
  have x2: "x * T = of_int (200 * int n)"
    using t by (simp add: x_def T_def)
  have unit: "1 / T * T = 1" using Tpos by simp
  have nontie: "\<lfloor>p + 1 / 2\<rfloor> = round x" if nt: "frac x \<noteq> 1 / 2"
  proof -
    define k where "k = round x"
    have k: "of_int k \<le> x + 1 / 2" "x + 1 / 2 < of_int k + 1"
      unfolding k_def round_def by linarith+
    have up: "x + 1 / T \<le> of_int k + 1 / 2"
    proof -
      from k(2) have "x < of_int k + 1 / 2" by simp
      then have "x * T < (of_int k + 1 / 2) * T"
        using Tpos by (intro mult_strict_right_mono)
      also have "(of_int k + 1 / 2) * T = (of_int ((2 * k + 1) * int t) :: rat)"
        by (simp add: algebra_simps T_def)
      finally have "200 * int n < (2 * k + 1) * int t"
        unfolding x2 by (simp only: of_int_less_iff)
      then have "200 * int n + 1 \<le> (2 * k + 1) * int t" by simp
      then have "(of_int (200 * int n + 1) :: rat) \<le> of_int ((2 * k + 1) * int t)"
        by (simp only: of_int_le_iff)
      also have "(of_int ((2 * k + 1) * int t) :: rat) = (of_int k + 1 / 2) * T"
        by (simp add: algebra_simps T_def)
      finally have "x * T + 1 / T * T \<le> (of_int k + 1 / 2) * T"
        unfolding unit using x2 by simp
      then have "(x + 1 / T) * T \<le> (of_int k + 1 / 2) * T"
        by (simp only: distrib_right)
      then show ?thesis using Tpos by (rule mult_right_le_imp_le)
    qed
    have lo: "of_int k - 1 / 2 + 1 / T \<le> x"
    proof -
      have "x \<noteq> of_int k - 1 / 2"
      proof
        assume e: "x = of_int k - 1 / 2"
        have "\<lfloor>x\<rfloor> = k - 1"
          by (rule floor_unique) (simp_all add: e)
        then have "frac x = 1 / 2" by (simp add: frac_def e)
        with nt show False by simp
      qed
      with k(1) have "of_int k - 1 / 2 < x" by simp
      then have "(of_int k - 1 / 2) * T < x * T"
        using Tpos by (intro mult_strict_right_mono)
      moreover have km: "(of_int k - 1 / 2) * T = (of_int ((2 * k - 1) * int t) :: rat)"
        by (simp add: algebra_simps T_def)
      ultimately have "(2 * k - 1) * int t < 200 * int n"
        unfolding x2 by (simp only: of_int_less_iff)
      then have "(2 * k - 1) * int t + 1 \<le> 200 * int n" by simp
      then have "(of_int ((2 * k - 1) * int t + 1) :: rat) \<le> of_int (200 * int n)"
        by (simp only: of_int_le_iff)
      then have "(of_int k - 1 / 2) * T + 1 / T * T \<le> x * T"
        unfolding unit x2 km by simp
      then have "(of_int k - 1 / 2 + 1 / T) * T \<le> x * T"
        by (simp only: distrib_right)
      then show ?thesis using Tpos by (rule mult_right_le_imp_le)
    qed
    from err dt up lo have "of_int k \<le> p + 1 / 2" "p + 1 / 2 < of_int k + 1" by linarith+
    then have "\<lfloor>p + 1 / 2\<rfloor> = k" by linarith
    then show ?thesis by (simp add: k_def)
  qed
  show r2: "int (jsPercent n t) = round (100 * of_nat n / of_nat t :: rat)"
    if "frac (100 * of_nat n / of_nat t :: rat) \<noteq> 1 / 2"
    using nontie that by (simp add: js x_def)
  show "\<bar>of_int (int (jsPercent n t)) - (100 * of_nat n / of_nat t :: rat)\<bar> \<le> 1 / 2"
  proof (cases "frac x = 1 / 2")
    case False
    then have "\<lfloor>p + 1 / 2\<rfloor> = round x" by (rule nontie)
    with of_int_round_abs_le [of x] show ?thesis by (simp add: js x_def)
  next
    case True
    define m where "m = \<lfloor>x\<rfloor>"
    from True have x: "x = of_int m + 1 / 2" by (simp add: frac_def m_def)
    with err dhalf have "of_int m \<le> p + 1 / 2" "p + 1 / 2 < of_int (m + 1) + 1" by auto
    then have "m \<le> \<lfloor>p + 1 / 2\<rfloor>" "\<lfloor>p + 1 / 2\<rfloor> < m + 2"
      by (simp_all add: le_floor_iff floor_less_iff)
    then have "\<lfloor>p + 1 / 2\<rfloor> = m \<or> \<lfloor>p + 1 / 2\<rfloor> = m + 1" by linarith
    then show ?thesis
      unfolding js x_def [symmetric] x by auto
  qed
qed


section \<open>The main loop ends when the page is bounded\<close>

lemma processUrl_frame:
  assumes "processUrl env s l tr sid u i st = (e, st')"
  shows "allCards st' = allCards st \<and> scrollAttempts st' = scrollAttempts st"
proof -
  have rs: "allCards b = allCards a \<and> scrollAttempts b = scrollAttempts a"
    if "recordSuccess env tr d a = (rp, b)" for d a rp b
    using recordSuccess_effect [OF that] by simp
  have cp: "allCards b = allCards a \<and> scrollAttempts b = scrollAttempts a"
    if "catchProcessing env s l i t a = (x, b)" for t a x b
    using catchProcessing_frame [OF that] by simp
  show ?thesis
    using assms
    by (auto simp: processUrl_def Let_def
        split: prod.splits sum.splits if_splits cb_reply.splits dest!: rs cp)
qed

lemma processUrls_frame:
  assumes "processUrls env s l tr sid q st = (e, st')"
  shows "allCards st' = allCards st \<and> scrollAttempts st' = scrollAttempts st"
  using assms
proof (induction q arbitrary: st)
  case Nil
  then show ?case by simp
next
  case (Cons a q)
  obtain u i where a: "a = (u, i)" by (cases a)
  show ?case
  proof (cases "newFound st < tr")
    case False
    with Cons.prems a show ?thesis by simp
  next
    case True
    obtain e1 st1 where p: "processUrl env s l tr sid u i st = (e1, st1)"
      by (cases "processUrl env s l tr sid u i st")
    note f = processUrl_frame [OF p]
    show ?thesis
    proof (cases e1)
      case (Some err)
      with Cons.prems a True p f show ?thesis by simp
    next
      case None
      with Cons.prems a True p have "processUrls env s l tr sid q st1 = (e, st')" by simp
      from Cons.IH [OF this] f show ?thesis by simp
    qed
  qed
qed

lemma scrollForCards_post:
  assumes "scrollForCards env needed st = (e, st')"
    and "\<And>w cards w'. queryCards env w = (Inr cards, w') \<Longrightarrow> length cards \<le> N"
    and "length (allCards st) \<le> N"
  shows "length (allCards st') \<le> N
         \<and> (e = None \<longrightarrow> needed \<le> length (allCards st')
                \<or> maxScrollAttempts \<le> scrollAttempts st')"
  using assms
proof (induction env needed st rule: scrollForCards.induct)
  case (1 env needed st)
  show ?case
  proof (cases "length (allCards st) < needed \<and> scrollAttempts st < maxScrollAttempts")
    case False
    with "1.prems" show ?thesis by (auto simp: scrollForCards.simps)
  next
    case True
    obtain r1 w1 where a: "scrollFeed env 2000 (world st) = (r1, w1)"
      by (cases "scrollFeed env 2000 (world st)")
    obtain r2 w2 where b: "waitForTimeout env 1500 w1 = (r2, w2)"
      by (cases "waitForTimeout env 1500 w1")
    obtain r3 w3 where c: "queryCards env w2 = (r3, w3)"
      by (cases "queryCards env w2")
    show ?thesis
    proof (cases "\<exists>x y cards. r1 = Inr x \<and> r2 = Inr y \<and> r3 = Inr cards")
      case False
      with "1.prems" True a b c show ?thesis
        by (subst (asm) scrollForCards.simps) (auto split: sum.splits)
    next
      case ok: True
      then obtain x y cards where r: "r1 = Inr x" "r2 = Inr y" "r3 = Inr cards" by blast
      with "1.prems"(1) True a b c
      have rec: "scrollForCards env needed
              (st\<lparr>world := w3, allCards := cards, scrollAttempts := scrollAttempts st + 1\<rparr>)
            = (e, st')"
        by (subst (asm) scrollForCards.simps) simp
      have "length cards \<le> N" using "1.prems"(2) c r by simp
      with "1.IH" [OF True a [symmetric] _ b [symmetric] _ c [symmetric] _ rec "1.prems"(2)] r
      show ?thesis by simp
    qed
  qed
qed

lemma loadCards_post:
  assumes ld: "loadCards env tr buffer st = (e, st1)"
    and bounded: "\<And>w cards w'. queryCards env w = (Inr cards, w') \<Longrightarrow> length cards \<le> N"
    and le: "length (allCards st) \<le> N"
  shows "length (allCards st1) \<le> N
         \<and> (e = None \<longrightarrow> currentUpdatedIndex st + tr + buffer \<le> length (allCards st1)
                \<or> maxScrollAttempts \<le> scrollAttempts st1)"
proof (cases "length (allCards st) < currentUpdatedIndex st + tr + buffer")
  case False
  with ld le show ?thesis by (auto simp: loadCards_def)
next
  case True
  obtain r w1 where q: "queryCards env (world st) = (r, w1)"
    by (cases "queryCards env (world st)")
  show ?thesis
  proof (cases r)
    case (Inl err)
    with ld True q le show ?thesis by (auto simp: loadCards_def)
  next
    case (Inr cards)
    with ld True q
    have sc: "scrollForCards env (currentUpdatedIndex st + tr + buffer)
            (st\<lparr>world := w1, allCards := cards\<rparr>) = (e, st1)"
      by (simp add: loadCards_def)
    have "length cards \<le> N" using bounded q Inr by simp
    with scrollForCards_post [OF sc bounded] show ?thesis by simp
  qed
qed

lemma roundsLeft_decreases:
  assumes "scrollAttempts st < maxScrollAttempts"
    and "scrollAttempts st \<le> scrollAttempts st1"
    and "length (allCards st1) \<le> N"
    and "length (allCards st) < length (allCards st1) \<or> scrollAttempts st < scrollAttempts st1"
  shows "roundsLeft N st1 < roundsLeft N st"
proof (cases "scrollAttempts st < scrollAttempts st1")
  case True
  let ?a = "maxScrollAttempts - scrollAttempts st1"
  let ?b = "maxScrollAttempts - scrollAttempts st"
  from True assms(1) have "?a + 1 \<le> ?b" by simp
  then have step: "(?a + 1) * (N + 1) \<le> ?b * (N + 1)"
    by (rule mult_le_mono1)
  have "roundsLeft N st1 \<le> ?a * (N + 1) + N"
    by (simp add: roundsLeft_def)
  also have "\<dots> < (?a + 1) * (N + 1)" by simp
  also note step
  also have "?b * (N + 1) \<le> roundsLeft N st"
    by (simp add: roundsLeft_def)
  finally show ?thesis .
next
  case False
  with assms have "scrollAttempts st1 = scrollAttempts st"
    and "length (allCards st) < length (allCards st1)" by simp_all
  with assms(3) show ?thesis by (simp add: roundsLeft_def)
qed

lemma scrapeLoop_returns:
  assumes bounded: "\<And>w cards w'. queryCards env w = (Inr cards, w') \<Longrightarrow> length cards \<le> N"
    and "length (allCards st) \<le> N"
    and "length (allCards st) \<le> currentUpdatedIndex st"
    and "roundsLeft N st < fuel"
  shows "scrapeLoop fuel env s l tr sid buffer ex st \<noteq> None"
  using assms(2-)
proof (induction fuel arbitrary: st)
  case 0
  then show ?case by simp
next
  case (Suc fuel)
  show ?case
  proof (cases "newFound st < tr \<and> scrollAttempts st < maxScrollAttempts")
    case False
    then show ?thesis by (subst scrapeLoop.simps) auto
  next
    case True
    obtain e1 st1 where ld: "loadCards env tr buffer st = (e1, st1)"
      by (cases "loadCards env tr buffer st")
    show ?thesis
    proof (cases e1)
      case (Some err)
      with True ld show ?thesis by (subst scrapeLoop.simps) simp
    next
      case None
      note post = loadCards_post [OF ld bounded Suc.prems(1)]
      note fr1 = loadCards_frame [OF ld]
      obtain q st2 where cu: "collectUrls env ex tr (currentUpdatedIndex st1)
          (drop (currentUpdatedIndex st1) (allCards st1)) [] st1 = (q, st2)"
        by (cases "collectUrls env ex tr (currentUpdatedIndex st1)
          (drop (currentUpdatedIndex st1) (allCards st1)) [] st1")
      from collectUrls_effect [OF cu]
      have fr2: "allCards st2 = allCards st1" "scrollAttempts st2 = scrollAttempts st1" by auto
      obtain e3 st3 where pr: "processUrls env s l tr sid q st2 = (e3, st3)"
        by (cases "processUrls env s l tr sid q st2")
      from processUrls_frame [OF pr] fr2
      have fr3: "allCards st3 = allCards st1" "scrollAttempts st3 = scrollAttempts st1" by auto
      show ?thesis
      proof (cases e3)
        case (Some err)
        with True ld None cu pr show ?thesis by (subst scrapeLoop.simps) simp
      next
        case n3: None
        define st4 where "st4 = (if newFound st3 < tr
                          then st3\<lparr>currentUpdatedIndex := length (allCards st3)\<rparr>
                          else st3)"
        have unfold: "scrapeLoop (Suc fuel) env s l tr sid buffer ex st
                      = scrapeLoop fuel env s l tr sid buffer ex st4"
          using True ld None cu pr n3 unfolding st4_def
          by (subst scrapeLoop.simps) simp
        show ?thesis
        proof (cases "newFound st3 < tr")
          case False
          then have "scrapeLoop fuel env s l tr sid buffer ex st4 = Some (None, st4)"
            by (subst scrapeLoop.simps) (simp add: st4_def)
          with unfold show ?thesis by simp
        next
          case lt: True
          then have st4: "st4 = st3\<lparr>currentUpdatedIndex := length (allCards st3)\<rparr>"
            by (simp add: st4_def)
          have a4: "length (allCards st4) \<le> N" using post fr3 st4 by simp
          have c4: "length (allCards st4) \<le> currentUpdatedIndex st4" using st4 by simp
          have grow: "length (allCards st) < length (allCards st1)
                      \<or> scrollAttempts st < scrollAttempts st1"
          proof (cases "scrollAttempts st < scrollAttempts st1")
            case True
            then show ?thesis by simp
          next
            case False
            with fr1 True have "scrollAttempts st1 < maxScrollAttempts" by simp
            with post None
            have "currentUpdatedIndex st + tr + buffer \<le> length (allCards st1)" by auto
            with Suc.prems(2) True show ?thesis by simp
          qed
          have "roundsLeft N st1 < roundsLeft N st"
            using True fr1 post grow by (intro roundsLeft_decreases) simp_all
          moreover have "roundsLeft N st4 = roundsLeft N st1"
            using fr3 st4 by (simp add: roundsLeft_def)
          ultimately have "roundsLeft N st4 < fuel" using Suc.prems(3) by simp
          from Suc.IH [OF a4 c4 this] unfold show ?thesis by simp
        qed
      qed
    qed
  qed
qed

lemma scrapeTry_returns:
  assumes bounded: "\<And>w cards w'. queryCards env w = (Inr cards, w') \<Longrightarrow> length cards \<le> N"
  shows "scrapeTry (51 * (N + 1)) env s l m idx sid des buf ex w \<noteq> None"
proof -
  obtain o1 w1 where os: "openSearch env s l w = (o1, w1)"
    by (cases "openSearch env s l w")
  have "scrapeLoop (51 * (N + 1)) env s l (targetOf des m) sid buf ex
          ((initialState idx w)\<lparr>world := w1\<rparr>) \<noteq> None"
    by (rule scrapeLoop_returns [OF bounded])
      (simp_all add: initialState_def roundsLeft_def maxScrollAttempts_def)
  with os show ?thesis
    by (auto simp: scrapeTry_def Let_def split: sum.splits option.splits prod.splits)
qed

section \<open>Composing a run from its rounds\<close>

lemma scrapeLoop_done:
  assumes "\<not> (newFound st < tr \<and> scrollAttempts st < maxScrollAttempts)"
  shows "scrapeLoop f env s l tr sid buffer ex st = Some (None, st)"
  using assms by (subst scrapeLoop.simps) auto

lemma scrapeLoop_round:
  assumes "newFound st < tr" and "scrollAttempts st < maxScrollAttempts"
    and "loadCards env tr buffer st = (None, st1)"
    and "collectUrls env ex tr (currentUpdatedIndex st1)
           (drop (currentUpdatedIndex st1) (allCards st1)) [] st1 = (q, st2)"
    and "processUrls env s l tr sid q st2 = (e, st3)"
  shows "scrapeLoop (Suc f) env s l tr sid buffer ex st
         = (case e of
              Some err \<Rightarrow> Some (Some err, st3)
            | None \<Rightarrow>
                scrapeLoop f env s l tr sid buffer ex
                  (if newFound st3 < tr
                   then st3\<lparr>currentUpdatedIndex := length (allCards st3)\<rparr> else st3))"
  using assms by (subst scrapeLoop.simps) (simp split: option.splits)

lemma initialState_world [simp]: "(initialState idx w)\<lparr>world := w1\<rparr> = initialState idx w1"
  by (simp add: initialState_def)

lemma scrapeUrlsAndDetails_of_loop:
  assumes os: "openSearch env s l w = (Inr True, w1)"
    and lp: "scrapeLoop fuel env s l (targetOf des m) sid buf ex (initialState idx w1)
             = Some (e, st)"
  shows "scrapeUrlsAndDetails fuel env s l m idx sid des buf ex w
         = Some (\<lparr>rNewFound = length (results st), rUpdatedIndex = currentUpdatedIndex st,
                  rResults = results st\<rparr>, st)"
proof (cases e)
  case (Some err)
  with os lp show ?thesis
    by (simp add: scrapeUrlsAndDetails_def scrapeTry_def Let_def)
next
  case None
  from scrapeLoop_inv [OF lp initialState_inv]
  have "length (results st) \<le> targetOf des m" by (simp add: runInvariant_def)
  moreover have "st\<lparr>results := results st\<rparr> = st" by (cases st) simp
  ultimately show ?thesis
    using os lp None
    by (simp add: scrapeUrlsAndDetails_def scrapeTry_def Let_def finish_def)
qed

section \<open>Runs of the simulation\<close>

lemma sim_fields:
  "gotoMaps (simEnv feed site b cb) = (\<lambda>searchTerm location timeout w. (Inr (), w\<lparr>current := None\<rparr>))"
  "gotoUrl (simEnv feed site b cb) = (\<lambda>u timeout w. (Inr (), w\<lparr>current := u\<rparr>))"
  "waitForTimeout (simEnv feed site b cb) = (\<lambda>ms w. (Inr (), w))"
  "waitForSelector (simEnv feed site b cb) = (\<lambda>sel timeout w. (Inr (), w))"
  "queryFeed (simEnv feed site b cb) = (\<lambda>w. (Inr True, w))"
  "queryCards (simEnv feed site b cb) = (\<lambda>w. (Inr feed, w))"
  "scrollFeed (simEnv feed site b cb) = (\<lambda>px w. (Inr (), w))"
  "getHref (simEnv feed site b cb) = (\<lambda>c w. (Inr c, w))"
  "readFields (simEnv feed site b cb) = (\<lambda>w. (Inr (site (current w)), w))"
  "dbInsert (simEnv feed site b cb) = (\<lambda>row w.
        if url row \<in> set (map url (store w)) then (DuplicateKey, w)
        else (Inserted, w\<lparr>store := store w @ [row]\<rparr>))"
  "dbSelectUrls (simEnv feed site b cb) = (\<lambda>w.
        (if b then Some (map (\<lambda>r. Some (url r)) (store w)) else None, w))"
  "dbInsertSession (simEnv feed site b cb) = (\<lambda>searchTerm location count index w. (None, w))"
  "dbSelectRecent (simEnv feed site b cb) = (\<lambda>limit w. (Some (take limit (rev (store w))), w))"
  "progressCb (simEnv feed site b cb) = cb"
  by (simp_all add: simEnv_def)

lemma simPage_simEnv: "simPage (simEnv feed site b cb) feed"
  by (simp add: simPage_def sim_fields)

lemma sim_scrollForCards:
  assumes page: "simPage env feed"
    and "allCards st = feed" and "length feed < needed"
    and "scrollAttempts st \<le> maxScrollAttempts"
  shows "scrollForCards env needed st = (None, st\<lparr>scrollAttempts := maxScrollAttempts\<rparr>)"
  using assms(2-)
proof (induction "maxScrollAttempts - scrollAttempts st" arbitrary: st)
  case 0
  then have "scrollAttempts st = maxScrollAttempts" by simp
  then have "st\<lparr>scrollAttempts := maxScrollAttempts\<rparr> = st" by (cases st) simp
  with 0 show ?case by (simp add: scrollForCards.simps)
next
  case (Suc n)
  let ?st1 = "st\<lparr>world := world st, allCards := feed, scrollAttempts := scrollAttempts st + 1\<rparr>"
  have "scrollForCards env needed ?st1 = (None, ?st1\<lparr>scrollAttempts := maxScrollAttempts\<rparr>)"
    using Suc.prems Suc.hyps(2) by (intro Suc.hyps(1)) simp_all
  moreover have "?st1\<lparr>scrollAttempts := maxScrollAttempts\<rparr> = st\<lparr>scrollAttempts := maxScrollAttempts\<rparr>"
    using Suc.prems(1) by (cases st) simp
  moreover have "scrollForCards env needed st = scrollForCards env needed ?st1"
    using Suc.prems Suc.hyps(2) page
    by (subst scrollForCards.simps) (auto simp: simPage_def)
  ultimately show ?case by simp
qed

lemma sim_loadCards:
  assumes "simPage env feed"
    and "length feed < currentUpdatedIndex st + tr + buffer"
    and "length (allCards st) < currentUpdatedIndex st + tr + buffer"
    and "scrollAttempts st \<le> maxScrollAttempts"
  shows "loadCards env tr buffer st
         = (None, st\<lparr>allCards := feed, scrollAttempts := maxScrollAttempts\<rparr>)"
proof -
  have q: "queryCards env (world st) = (Inr feed, world st)"
    using assms(1) by (simp add: simPage_def)
  have "scrollForCards env (currentUpdatedIndex st + tr + buffer) (st\<lparr>world := world st, allCards := feed\<rparr>)
        = (None, st\<lparr>world := world st, allCards := feed\<rparr>\<lparr>scrollAttempts := maxScrollAttempts\<rparr>)"
    using assms by (intro sim_scrollForCards [where feed = feed]) simp_all
  with assms(3) q show ?thesis by (simp add: loadCards_def)
qed

lemma sim_openSearch:
  "openSearch (simEnv feed site b cb) s l w = (Inr True, w\<lparr>current := None\<rparr>)"
  by (simp add: openSearch_def andThen_def sim_fields)

lemma sim_extract:
  "extractBusinessDetails (simEnv feed site b cb) u w = (simDetails site u, w\<lparr>current := u\<rparr>)"
  by (simp add: extractBusinessDetails_def andThen_def sim_fields simDetails_def)

lemma sim_scrollTimes: "scrollTimes (simEnv feed site b cb) n w = (Inr (), w)"
  by (induction n) (simp_all add: andThen_def sim_fields)

lemma sim_navigateBackToList:
  "navigateBackToList (simEnv feed site b cb) s l i w = w\<lparr>current := None\<rparr>"
  by (simp add: navigateBackToList_def scrollToPosition_def andThen_def sim_fields sim_scrollTimes)

lemma sim_processUrl_incomplete:
  assumes "BusinessName (simDetails site u) = [] \<or> Address (simDetails site u) = []
           \<or> PhoneNumber (simDetails site u) = []"
  shows "processUrl (simEnv feed site b cb) s l tr sid u i st
         = (None, st\<lparr>world := (world st)\<lparr>current := u\<rparr>, extracted := extracted st @ [u],
                       currentUpdatedIndex := i + 1\<rparr>)"
  using assms by (auto simp: processUrl_def andThen_def sim_fields sim_extract)

lemma sim_processUrl_commit:
  assumes "BusinessName (simDetails site u) \<noteq> []" "Address (simDetails site u) \<noteq> []"
    "PhoneNumber (simDetails site u) \<noteq> []"
  shows "processUrl (simEnv feed site b quietCb) s l tr sid u i st
         = (None,
            st\<lparr>results := results st @ [simDetails site u], newFound := newFound st + 1,
                currentUpdatedIndex := i + 1,
                world := \<lparr>current = None,
                          store = (if url (withSession sid (mapToSupabaseColumns (simDetails site u)))
                                      \<in> set (map url (store (world st)))
                                   then store (world st)
                                   else store (world st)
                                        @ [withSession sid (mapToSupabaseColumns (simDetails site u))])\<rparr>,
                extracted := extracted st @ [u],
                committed := committed st @ [withSession sid (mapToSupabaseColumns (simDetails site u))],
                progressCalls := progressCalls st
                  @ [(jsPercent (newFound st + 1) tr, results st @ [simDetails site u])]\<rparr>)"
  using assms
  by (cases "world st")
    (auto simp: processUrl_def andThen_def sim_fields sim_extract Let_def insertWithRetry_def
      numeral_3_eq_3 recordSuccess_def sim_navigateBackToList quietCb_def)

lemma sim_processUrl_throw:
  assumes "BusinessName (simDetails site u) \<noteq> []" "Address (simDetails site u) \<noteq> []"
    "PhoneNumber (simDetails site u) \<noteq> []"
    and "url (withSession sid (mapToSupabaseColumns (simDetails site u)))
         \<notin> set (map url (store (world st)))"
  shows "processUrl (simEnv feed site b throwingCb) s l tr sid u i st
         = (Some OtherError,
            st\<lparr>results := results st @ [simDetails site u], newFound := newFound st + 1,
                world := \<lparr>current = u,
                          store = store (world st)
                                  @ [withSession sid (mapToSupabaseColumns (simDetails site u))]\<rparr>,
                extracted := extracted st @ [u],
                committed := committed st @ [withSession sid (mapToSupabaseColumns (simDetails site u))],
                progressCalls := progressCalls st
                  @ [(jsPercent (newFound st + 1) tr, results st @ [simDetails site u])]\<rparr>)"
  using assms
  by (cases "world st")
    (auto simp: processUrl_def andThen_def sim_fields sim_extract Let_def insertWithRetry_def
      numeral_3_eq_3 recordSuccess_def catchProcessing_def throwingCb_def)

lemma sim_finalCorrection:
  "length rs < m \<Longrightarrow> finalCorrection (simEnv feed site b cb) m rs w
     = (rs @ take (m - length rs) (map fromRow (take m (rev (store w)))), w)"
  by (simp add: finalCorrection_def sim_fields Let_def)

lemma fromRow_shopRow: "fromRow (shopRow n) = shop n"
  by (simp add: fromRow_def mapToSupabaseColumns_def simDetails_def shopRow_def shop_def)

lemma phone_example: "formatPhoneNumber (str ''808 969-3899'') = str ''+18089693899''"
  by (simp add: formatPhoneNumber_def trim_def digitsOf_def str_def isDigit_def isWhiteSpace_def
      startsWith_def)

lemma phone_example_nonempty: "formatPhoneNumber (str ''808 969-3899'') \<noteq> []"
  unfolding phone_example by (simp add: str_def)

lemma shop_complete:
  "10 \<le> n \<Longrightarrow> BusinessName (simDetails shopSite (Some [n])) \<noteq> []
     \<and> Address (simDetails shopSite (Some [n])) \<noteq> []
     \<and> PhoneNumber (simDetails shopSite (Some [n])) \<noteq> []"
  by (auto simp: simDetails_def shopSite_def complete_def blankDetails_def
      phone_example_nonempty)

lemma shop_incomplete:
  "n < 10 \<Longrightarrow> PhoneNumber (simDetails shopSite (Some [n])) = []"
  by (simp add: simDetails_def shopSite_def noPhone_def blankDetails_def formatPhoneNumber_def)

lemma shopRow_url: "url (shopRow n) = [n]"
  by (simp add: mapToSupabaseColumns_def simDetails_def shopRow_def shop_def)

lemma shop_URL: "URL (shop n) = Some [n]"
  by (simp add: simDetails_def shop_def)

lemma percent_1_2: "jsPercent (Suc 0) 2 = 50"
  by code_simp

lemma percent_2_2: "jsPercent (Suc (Suc 0)) 2 = 100"
  by code_simp

lemma percent_1_3: "jsPercent (Suc 0) 3 = 33"
  by code_simp

lemma emptyStore_current [simp]: "emptyStore\<lparr>current := None\<rparr> = emptyStore"
  by (simp add: emptyStore_def)

text \<open>Run A: one card, a target of two, an empty store.\<close>

lemma runA_scrape:
  "scrapeUrlsAndDetails (Suc f) (simEnv [Some [10]] shopSite True quietCb) [] [] 2 0 None None
     20 {} emptyStore
   = Some (\<lparr>rNewFound = 1, rUpdatedIndex = 1, rResults = [shop 10]\<rparr>,
       \<lparr>results = [shop 10], newFound = 1,
        processedUrls = {Some [10]}, duplicatesSkipped = 0, currentUpdatedIndex = 1,
        allCards = [Some [10]], scrollAttempts = 50,
        world = \<lparr>current = None, store = [shopRow 10]\<rparr>,
        extracted = [Some [10]], committed = [shopRow 10],
        progressCalls = [(50, [shop 10])]\<rparr>)"
proof -
  let ?E = "simEnv [Some [10]] shopSite True quietCb"
  let ?st0 = "initialState 0 emptyStore :: (href, sim_world) scrape_state"
  let ?st1 = "?st0\<lparr>allCards := [Some [10]], scrollAttempts := maxScrollAttempts\<rparr>"
  let ?st2 = "?st1\<lparr>processedUrls := {Some [10]}\<rparr>"
  define st3 :: "(href, sim_world) scrape_state" where
    "st3 = \<lparr>results = [shop 10], newFound = 1,
        processedUrls = {Some [10]}, duplicatesSkipped = 0, currentUpdatedIndex = 1,
        allCards = [Some [10]], scrollAttempts = 50,
        world = \<lparr>current = None, store = [shopRow 10]\<rparr>,
        extracted = [Some [10]], committed = [shopRow 10],
        progressCalls = [(50, [shop 10])]\<rparr>"
  have ld: "loadCards ?E 2 20 ?st0 = (None, ?st1)"
    by (rule sim_loadCards [OF simPage_simEnv]) (simp_all add: initialState_def)
  have cu: "collectUrls ?E {} 2 (currentUpdatedIndex ?st1)
              (drop (currentUpdatedIndex ?st1) (allCards ?st1)) [] ?st1
            = ([(Some [10], 0)], ?st2)"
    by (simp add: initialState_def sim_fields)
  have pr: "processUrls ?E [] [] 2 None [(Some [10], 0)] ?st2 = (None, st3)"
    using shop_complete [of 10] unfolding st3_def shop_def shopRow_def
    by (simp add: sim_processUrl_commit initialState_def emptyStore_def withSession_def
        percent_1_2 maxScrollAttempts_def)
  have "scrapeLoop (Suc f) ?E [] [] 2 None 20 {} ?st0
        = scrapeLoop f ?E [] [] 2 None 20 {} (st3\<lparr>currentUpdatedIndex := length (allCards st3)\<rparr>)"
    using scrapeLoop_round [OF _ _ ld cu pr, where f = f]
    by (simp add: initialState_def maxScrollAttempts_def st3_def)
  also have "\<dots> = Some (None, st3\<lparr>currentUpdatedIndex := length (allCards st3)\<rparr>)"
    by (rule scrapeLoop_done) (simp add: st3_def maxScrollAttempts_def)
  finally have lp: "scrapeLoop (Suc f) ?E [] [] (targetOf None 2) None 20 {} ?st0
      = Some (None, st3\<lparr>currentUpdatedIndex := length (allCards st3)\<rparr>)"
    by (simp add: targetOf_def)
  have os: "openSearch ?E [] [] emptyStore = (Inr True, emptyStore)"
    by (simp add: sim_openSearch)
  from scrapeUrlsAndDetails_of_loop [OF os lp] show ?thesis by (simp add: st3_def)
qed

lemma runA:
  "scrapeAndEnrich (Suc f) (simEnv [Some [10]] shopSite True quietCb) [] [] 2 emptyStore
   = Some ([shop 10, shop 10], \<lparr>current = None, store = [shopRow 10]\<rparr>)"
proof -
  let ?E = "simEnv [Some [10]] shopSite True quietCb"
  have pp: "getPermanentSearchProgress ?E emptyStore
            = (\<lparr>updatedIndex = 0, lastRetrievedCount = 0, existingUrls = {}\<rparr>, emptyStore)"
    by (simp add: getPermanentSearchProgress_def sim_fields emptyStore_def)
  show ?thesis
    by (simp add: scrapeAndEnrich_def pp sim_fields runA_scrape sim_finalCorrection
        fromRow_shopRow)
qed

text \<open>Run B: as run A, with a callback that throws a string.\<close>

lemma runB_try:
  "scrapeTry (Suc f) (simEnv [Some [10]] shopSite True throwingCb) [] [] 2 0 None None
     20 {} emptyStore
   = Some (Throws OtherError,
       \<lparr>results = [shop 10], newFound = 1,
        processedUrls = {Some [10]}, duplicatesSkipped = 0, currentUpdatedIndex = 0,
        allCards = [Some [10]], scrollAttempts = 50,
        world = \<lparr>current = Some [10], store = [shopRow 10]\<rparr>,
        extracted = [Some [10]], committed = [shopRow 10],
        progressCalls = [(50, [shop 10])]\<rparr>)"
proof -
  let ?E = "simEnv [Some [10]] shopSite True throwingCb"
  let ?st0 = "initialState 0 emptyStore :: (href, sim_world) scrape_state"
  let ?st1 = "?st0\<lparr>allCards := [Some [10]], scrollAttempts := maxScrollAttempts\<rparr>"
  let ?st2 = "?st1\<lparr>processedUrls := {Some [10]}\<rparr>"
  define st3 :: "(href, sim_world) scrape_state" where
    "st3 = \<lparr>results = [shop 10], newFound = 1,
        processedUrls = {Some [10]}, duplicatesSkipped = 0, currentUpdatedIndex = 0,
        allCards = [Some [10]], scrollAttempts = 50,
        world = \<lparr>current = Some [10], store = [shopRow 10]\<rparr>,
        extracted = [Some [10]], committed = [shopRow 10],
        progressCalls = [(50, [shop 10])]\<rparr>"
  have ld: "loadCards ?E 2 20 ?st0 = (None, ?st1)"
    by (rule sim_loadCards [OF simPage_simEnv]) (simp_all add: initialState_def)
  have cu: "collectUrls ?E {} 2 (currentUpdatedIndex ?st1)
              (drop (currentUpdatedIndex ?st1) (allCards ?st1)) [] ?st1
            = ([(Some [10], 0)], ?st2)"
    by (simp add: initialState_def sim_fields)
  have pr: "processUrls ?E [] [] 2 None [(Some [10], 0)] ?st2 = (Some OtherError, st3)"
    using shop_complete [of 10] unfolding st3_def shop_def shopRow_def
    by (simp add: sim_processUrl_throw initialState_def emptyStore_def withSession_def
        percent_1_2 maxScrollAttempts_def)
  have lp: "scrapeLoop (Suc f) ?E [] [] 2 None 20 {} ?st0 = Some (Some OtherError, st3)"
    using scrapeLoop_round [OF _ _ ld cu pr, where f = f]
    by (simp add: initialState_def maxScrollAttempts_def)
  show ?thesis
    by (simp add: scrapeTry_def sim_openSearch targetOf_def lp st3_def)
qed


text \<open>
  Run C: the feed of 23 cards, a target of three, an empty store.
\<close>

lemma feedC_length: "length feedC = 23"
  by (simp add: feedC_def)

lemma sim_loadCards_enough:
  assumes "simPage env feed"
    and "length (allCards st) < currentUpdatedIndex st + tr + buffer"
    and "currentUpdatedIndex st + tr + buffer \<le> length feed"
  shows "loadCards env tr buffer st = (None, st\<lparr>allCards := feed\<rparr>)"
proof -
  have q: "queryCards env (world st) = (Inr feed, world st)"
    using assms(1) by (simp add: simPage_def)
  have "st\<lparr>world := world st, allCards := feed\<rparr> = st\<lparr>allCards := feed\<rparr>"
    by (cases st) simp
  with assms(2,3) q show ?thesis
    by (simp add: loadCards_def scrollForCards.simps)
qed

lemma runC_scrape:
  "scrapeUrlsAndDetails (Suc (Suc f)) (simEnv feedC shopSite True quietCb) [] [] 3 0 None None
     20 {} emptyStore
   = Some (\<lparr>rNewFound = 1, rUpdatedIndex = 23, rResults = [shop 10]\<rparr>,
       \<lparr>results = [shop 10], newFound = 1,
        processedUrls = {Some [8], Some [7], Some [6], Some [5], Some [4], Some [3], Some [2],
                         Some [10]},
        duplicatesSkipped = 0, currentUpdatedIndex = 23,
        allCards = feedC, scrollAttempts = 50,
        world = \<lparr>current = Some [8], store = [shopRow 10]\<rparr>,
        extracted = [Some [10], Some [2], Some [3], Some [4], Some [5], Some [6], Some [7],
                     Some [8]],
        committed = [shopRow 10],
        progressCalls = [(33, [shop 10])]\<rparr>)"
proof -
  let ?E = "simEnv feedC shopSite True quietCb"
  let ?st0 = "initialState 0 emptyStore :: (href, sim_world) scrape_state"
  let ?st1 = "?st0\<lparr>allCards := feedC\<rparr>"
  let ?q = "[(Some [10], 0), (Some [2], 1), (Some [3], 2), (Some [4], 3), (Some [5], 4),
             (Some [6], 5), (Some [7], 6), (Some [8], 7 :: nat)]"
  let ?st2 = "?st1\<lparr>processedUrls := {Some [8], Some [7], Some [6], Some [5], Some [4],
                 Some [3], Some [2], Some [10]}\<rparr>"
  define st3 :: "(href, sim_world) scrape_state" where
    "st3 = \<lparr>results = [shop 10], newFound = 1,
        processedUrls = {Some [8], Some [7], Some [6], Some [5], Some [4], Some [3], Some [2],
                         Some [10]},
        duplicatesSkipped = 0, currentUpdatedIndex = 8,
        allCards = feedC, scrollAttempts = 0,
        world = \<lparr>current = Some [8], store = [shopRow 10]\<rparr>,
        extracted = [Some [10], Some [2], Some [3], Some [4], Some [5], Some [6], Some [7],
                     Some [8]],
        committed = [shopRow 10],
        progressCalls = [(33, [shop 10])]\<rparr>"
  define st4 where "st4 = st3\<lparr>currentUpdatedIndex := length (allCards st3)\<rparr>"
  define st5 where "st5 = st4\<lparr>allCards := feedC, scrollAttempts := maxScrollAttempts\<rparr>"
  text \<open>The first round: the cards are loaded without a scroll, eight are queued.\<close>
  have ld: "loadCards ?E 3 20 ?st0 = (None, ?st1)"
    by (rule sim_loadCards_enough [OF simPage_simEnv])
      (simp_all add: initialState_def feedC_length)
  have cu: "collectUrls ?E {} 3 (currentUpdatedIndex ?st1)
              (drop (currentUpdatedIndex ?st1) (allCards ?st1)) [] ?st1 = (?q, ?st2)"
    by (simp add: initialState_def sim_fields feedC_def)
  have bad: "PhoneNumber (simDetails shopSite (Some [n])) = []" if "n < 10" for n
    using that by (rule shop_incomplete)
  have pr: "processUrls ?E [] [] 3 None ?q ?st2 = (None, st3)"
    using shop_complete [of 10] unfolding st3_def shop_def shopRow_def
    by (simp add: sim_processUrl_commit sim_processUrl_incomplete bad initialState_def
        emptyStore_def withSession_def percent_1_3)
  have r1: "scrapeLoop (Suc (Suc f)) ?E [] [] 3 None 20 {} ?st0
            = scrapeLoop (Suc f) ?E [] [] 3 None 20 {} st4"
    using scrapeLoop_round [OF _ _ ld cu pr, where f = "Suc f"]
    by (simp add: initialState_def maxScrollAttempts_def st3_def st4_def)
  text \<open>The second round starts behind the last card and finds nothing.\<close>
  have ld2: "loadCards ?E 3 20 st4 = (None, st5)"
    unfolding st5_def
    by (rule sim_loadCards [OF simPage_simEnv])
      (simp_all add: st4_def st3_def feedC_length maxScrollAttempts_def)
  have cu2: "collectUrls ?E {} 3 (currentUpdatedIndex st5)
              (drop (currentUpdatedIndex st5) (allCards st5)) [] st5 = ([], st5)"
    by (simp add: st5_def st4_def st3_def feedC_length)
  have pr2: "processUrls ?E [] [] 3 None [] st5 = (None, st5)"
    by simp
  have r2: "scrapeLoop (Suc f) ?E [] [] 3 None 20 {} st4
            = scrapeLoop f ?E [] [] 3 None 20 {} st5"
  proof -
    have "st5\<lparr>currentUpdatedIndex := length (allCards st5)\<rparr> = st5"
      by (simp add: st5_def st4_def st3_def)
    with scrapeLoop_round [OF _ _ ld2 cu2 pr2, where f = f] show ?thesis
      by (simp add: st5_def st4_def st3_def maxScrollAttempts_def)
  qed
  have r3: "scrapeLoop f ?E [] [] 3 None 20 {} st5 = Some (None, st5)"
    by (rule scrapeLoop_done) (simp add: st5_def)
  have lp: "scrapeLoop (Suc (Suc f)) ?E [] [] (targetOf None 3) None 20 {} ?st0
            = Some (None, st5)"
    using r1 r2 r3 by (simp add: targetOf_def)
  have os: "openSearch ?E [] [] emptyStore = (Inr True, emptyStore)"
    by (simp add: sim_openSearch)
  from scrapeUrlsAndDetails_of_loop [OF os lp] show ?thesis
    by (simp add: st5_def st4_def st3_def feedC_length maxScrollAttempts_def)
qed

lemma runC:
  "scrapeAndEnrich (Suc (Suc f)) (simEnv feedC shopSite True quietCb) [] [] 3 emptyStore
   = Some ([shop 10, shop 10], \<lparr>current = Some [8], store = [shopRow 10]\<rparr>)"
proof -
  let ?E = "simEnv feedC shopSite True quietCb"
  have pp: "getPermanentSearchProgress ?E emptyStore
            = (\<lparr>updatedIndex = 0, lastRetrievedCount = 0, existingUrls = {}\<rparr>, emptyStore)"
    by (simp add: getPermanentSearchProgress_def sim_fields emptyStore_def)
  show ?thesis
    by (simp add: scrapeAndEnrich_def pp sim_fields runC_scrape sim_finalCorrection
        fromRow_shopRow)
qed

text \<open>
  Run E: the only card is already in the store, the target is two. The cursor starts
  behind the card and the main loop commits nothing.
\<close>

lemma storeOf_current [simp]: "(storeOf rows)\<lparr>current := None\<rparr> = storeOf rows"
  by (simp add: storeOf_def)

lemma runE_scrape:
  "scrapeUrlsAndDetails (Suc f) (simEnv [Some [10]] shopSite True quietCb) [] [] 2 1 None None
     20 {Some [10]} (storeOf [shopRow 10])
   = Some (\<lparr>rNewFound = 0, rUpdatedIndex = 1, rResults = []\<rparr>,
       \<lparr>results = [], newFound = 0, processedUrls = {}, duplicatesSkipped = 0,
        currentUpdatedIndex = 1, allCards = [Some [10]], scrollAttempts = 50,
        world = storeOf [shopRow 10], extracted = [], committed = [], progressCalls = []\<rparr>)"
proof -
  let ?E = "simEnv [Some [10]] shopSite True quietCb"
  let ?st0 = "initialState 1 (storeOf [shopRow 10]) :: (href, sim_world) scrape_state"
  let ?st1 = "?st0\<lparr>allCards := [Some [10]], scrollAttempts := maxScrollAttempts\<rparr>"
  have ld: "loadCards ?E 2 20 ?st0 = (None, ?st1)"
    by (rule sim_loadCards [OF simPage_simEnv]) (simp_all add: initialState_def)
  have cu: "collectUrls ?E {Some [10]} 2 (currentUpdatedIndex ?st1)
              (drop (currentUpdatedIndex ?st1) (allCards ?st1)) [] ?st1 = ([], ?st1)"
    by (simp add: initialState_def)
  have pr: "processUrls ?E [] [] 2 None [] ?st1 = (None, ?st1)"
    by simp
  have "scrapeLoop (Suc f) ?E [] [] 2 None 20 {Some [10]} ?st0
        = scrapeLoop f ?E [] [] 2 None 20 {Some [10]}
            (?st1\<lparr>currentUpdatedIndex := length (allCards ?st1)\<rparr>)"
    using scrapeLoop_round [OF _ _ ld cu pr, where f = f]
    by (simp add: initialState_def maxScrollAttempts_def)
  also have "\<dots> = Some (None, ?st1\<lparr>currentUpdatedIndex := length (allCards ?st1)\<rparr>)"
    by (rule scrapeLoop_done) (simp add: maxScrollAttempts_def)
  finally have lp: "scrapeLoop (Suc f) ?E [] [] (targetOf None 2) None 20 {Some [10]} ?st0
      = Some (None, ?st1\<lparr>currentUpdatedIndex := length (allCards ?st1)\<rparr>)"
    by (simp add: targetOf_def)
  have os: "openSearch ?E [] [] (storeOf [shopRow 10]) = (Inr True, storeOf [shopRow 10])"
    by (simp add: sim_openSearch)
  from scrapeUrlsAndDetails_of_loop [OF os lp] show ?thesis
    by (simp add: initialState_def maxScrollAttempts_def)
qed

lemma runE_progress:
  "getPermanentSearchProgress (simEnv feed site True cb) (storeOf [shopRow 10])
   = (\<lparr>updatedIndex = 1, lastRetrievedCount = 1, existingUrls = {Some [10]}\<rparr>,
      storeOf [shopRow 10])"
  by (simp add: getPermanentSearchProgress_def sim_fields storeOf_def shopRow_url)

text \<open>
  Run F: four cards, the second of them already in the store, a target of two.
\<close>

lemma runF_scrape:
  "scrapeUrlsAndDetails (Suc f) (simEnv feedF shopSite True quietCb) [] [] 2 1 None None
     20 {Some [10]} (storeOf [shopRow 10])
   = Some (\<lparr>rNewFound = 2, rUpdatedIndex = 4, rResults = [shop 30, shop 40]\<rparr>,
       \<lparr>results = [shop 30, shop 40], newFound = 2,
        processedUrls = {Some [40], Some [30]}, duplicatesSkipped = 1,
        currentUpdatedIndex = 4, allCards = feedF, scrollAttempts = 50,
        world = storeOf [shopRow 10, shopRow 30, shopRow 40],
        extracted = [Some [30], Some [40]], committed = [shopRow 30, shopRow 40],
        progressCalls = [(50, [shop 30]), (100, [shop 30, shop 40])]\<rparr>)"
proof -
  let ?E = "simEnv feedF shopSite True quietCb"
  let ?st0 = "initialState 1 (storeOf [shopRow 10]) :: (href, sim_world) scrape_state"
  let ?st1 = "?st0\<lparr>allCards := feedF, scrollAttempts := maxScrollAttempts\<rparr>"
  let ?q = "[(Some [30], 2), (Some [40], 3 :: nat)]"
  let ?st2 = "?st1\<lparr>duplicatesSkipped := 1, processedUrls := {Some [40], Some [30]}\<rparr>"
  define st3 :: "(href, sim_world) scrape_state" where
    "st3 = \<lparr>results = [shop 30, shop 40], newFound = 2,
        processedUrls = {Some [40], Some [30]}, duplicatesSkipped = 1,
        currentUpdatedIndex = 4, allCards = feedF, scrollAttempts = 50,
        world = storeOf [shopRow 10, shopRow 30, shopRow 40],
        extracted = [Some [30], Some [40]], committed = [shopRow 30, shopRow 40],
        progressCalls = [(50, [shop 30]), (100, [shop 30, shop 40])]\<rparr>"
  have ld: "loadCards ?E 2 20 ?st0 = (None, ?st1)"
    by (rule sim_loadCards [OF simPage_simEnv]) (simp_all add: initialState_def feedF_def)
  have cu: "collectUrls ?E {Some [10]} 2 (currentUpdatedIndex ?st1)
              (drop (currentUpdatedIndex ?st1) (allCards ?st1)) [] ?st1 = (?q, ?st2)"
    by (simp add: initialState_def sim_fields feedF_def)
  have pr: "processUrls ?E [] [] 2 None ?q ?st2 = (None, st3)"
    using shop_complete [of 30] shop_complete [of 40]
    unfolding st3_def shop_def shopRow_def storeOf_def
    by (simp add: sim_processUrl_commit initialState_def withSession_def
        percent_1_2 percent_2_2 maxScrollAttempts_def mapToSupabaseColumns_def simDetails_def)
  have "scrapeLoop (Suc f) ?E [] [] 2 None 20 {Some [10]} ?st0
        = scrapeLoop f ?E [] [] 2 None 20 {Some [10]} st3"
    using scrapeLoop_round [OF _ _ ld cu pr, where f = f]
    by (simp add: initialState_def maxScrollAttempts_def st3_def)
  also have "\<dots> = Some (None, st3)"
    by (rule scrapeLoop_done) (simp add: st3_def)
  finally have lp: "scrapeLoop (Suc f) ?E [] [] (targetOf None 2) None 20 {Some [10]} ?st0
      = Some (None, st3)"
    by (simp add: targetOf_def)
  have os: "openSearch ?E [] [] (storeOf [shopRow 10]) = (Inr True, storeOf [shopRow 10])"
    by (simp add: sim_openSearch)
  from scrapeUrlsAndDetails_of_loop [OF os lp] show ?thesis
    by (simp add: st3_def)
qed

lemma callbackLog_hearing: "callbackLog (simEnv feed site b hearingCb) heard"
  by (simp add: callbackLog_def sim_fields hearingCb_def)

lemma failingFirst_fields:
  "gotoMaps (failingFirst env) = gotoMaps env"
  "gotoUrl (failingFirst env) = gotoUrl env"
  "waitForTimeout (failingFirst env) = waitForTimeout env"
  "waitForSelector (failingFirst env) = waitForSelector env"
  "queryFeed (failingFirst env) = queryFeed env"
  "queryCards (failingFirst env) = queryCards env"
  "scrollFeed (failingFirst env) = scrollFeed env"
  "getHref (failingFirst env) = getHref env"
  "readFields (failingFirst env) = readFields env"
  "progressCb (failingFirst env) = progressCb env"
  "dbInsert (failingFirst env) = (\<lambda>row w.
       if 0 < outage w then (InsertFailed, w\<lparr>outage := outage w - 1\<rparr>)
       else dbInsert env row w)"
  by (simp_all add: failingFirst_def)

lemma callbackLog_failingFirst:
  "callbackLog (failingFirst (simEnv feed site b hearingCb)) heard"
  by (simp add: callbackLog_def failingFirst_fields sim_fields hearingCb_def)

lemma sim_collectUrls_all:
  assumes "distinct cards" and "set cards \<inter> (processedUrls st \<union> ex) = {}"
    and "int (length q) + int (length cards) < int tr - int (newFound st) + 5"
  shows "collectUrls (simEnv feed site b cb) ex tr i cards q st
         = (q @ zip cards [i..<i + length cards],
            st\<lparr>processedUrls := processedUrls st \<union> set cards\<rparr>)"
  using assms
proof (induction cards arbitrary: i q st)
  case Nil
  have "st\<lparr>processedUrls := processedUrls st\<rparr> = st" by (cases st) simp
  then show ?case by simp
next
  case (Cons c cards)
  let ?st1 = "st\<lparr>world := world st, processedUrls := insert c (processedUrls st)\<rparr>"
  have "collectUrls (simEnv feed site b cb) ex tr (i + 1) cards (q @ [(c, i)]) ?st1
        = ((q @ [(c, i)]) @ zip cards [i + 1..<i + 1 + length cards],
           ?st1\<lparr>processedUrls := processedUrls ?st1 \<union> set cards\<rparr>)"
    using Cons.prems by (intro Cons.IH) auto
  moreover have "?st1\<lparr>processedUrls := processedUrls ?st1 \<union> set cards\<rparr>
        = st\<lparr>processedUrls := processedUrls st \<union> set (c # cards)\<rparr>"
    by (cases st) simp
  moreover have "zip (c # cards) [i..<i + length (c # cards)]
        = (c, i) # zip cards [i + 1..<i + 1 + length cards]"
    by (simp add: upt_conv_Cons del: upt_Suc)
  ultimately show ?case
    using Cons.prems by (simp add: sim_fields Let_def)
qed

lemma sim_processUrl_heard:
  assumes "BusinessName (simDetails site u) \<noteq> []" "Address (simDetails site u) \<noteq> []"
    "PhoneNumber (simDetails site u) \<noteq> []"
  shows "\<exists>st'. processUrl (simEnv feed site b hearingCb) s l tr sid u i st = (None, st')
           \<and> newFound st' = newFound st + 1 \<and> results st' = results st @ [simDetails site u]
           \<and> allCards st' = allCards st \<and> scrollAttempts st' = scrollAttempts st"
  using assms
  by (simp add: processUrl_def andThen_def sim_fields sim_extract Let_def insertWithRetry_def
      numeral_3_eq_3 recordSuccess_def sim_navigateBackToList hearingCb_def)

lemma sim_processUrls_heard:
  assumes "\<forall>u \<in> set (map fst q). BusinessName (simDetails site u) \<noteq> []
             \<and> Address (simDetails site u) \<noteq> [] \<and> PhoneNumber (simDetails site u) \<noteq> []"
    and "newFound st + length q \<le> tr"
  shows "\<exists>st'. processUrls (simEnv feed site b hearingCb) s l tr sid q st = (None, st')
           \<and> newFound st' = newFound st + length q
           \<and> results st' = results st @ map (simDetails site) (map fst q)
           \<and> allCards st' = allCards st \<and> scrollAttempts st' = scrollAttempts st"
  using assms
proof (induction q arbitrary: st)
  case Nil
  then show ?case by simp
next
  case (Cons a q)
  obtain u i where a: "a = (u, i)" by (cases a)
  from Cons.prems a obtain st1 where
    p: "processUrl (simEnv feed site b hearingCb) s l tr sid u i st = (None, st1)"
    and f: "newFound st1 = newFound st + 1" "results st1 = results st @ [simDetails site u]"
      "allCards st1 = allCards st" "scrollAttempts st1 = scrollAttempts st"
    using sim_processUrl_heard [of site u feed b s l tr sid i st] by auto
  from Cons.prems f have "newFound st1 + length q \<le> tr" by simp
  with Cons.IH [of st1] Cons.prems(1) obtain st' where
    "processUrls (simEnv feed site b hearingCb) s l tr sid q st1 = (None, st')"
    "newFound st' = newFound st1 + length q"
    "results st' = results st1 @ map (simDetails site) (map fst q)"
    "allCards st' = allCards st1" "scrollAttempts st' = scrollAttempts st1" by auto
  with p f a Cons.prems(2) show ?case by simp
qed

text \<open>
  A run on a feed of distinct complete businesses, not more than the target, with the
  callback that listens: every card is committed.
\<close>

lemma sim_run_heard:
  assumes d: "distinct feed"
    and c: "\<forall>u \<in> set feed. BusinessName (simDetails site u) \<noteq> []
             \<and> Address (simDetails site u) \<noteq> [] \<and> PhoneNumber (simDetails site u) \<noteq> []"
    and m: "length feed \<le> m" "0 < m"
  shows "\<exists>r st. scrapeUrlsAndDetails (Suc f) (simEnv feed site b hearingCb) s l m 0 sid
             None 20 {} w = Some (r, st)
     \<and> rResults r = map (simDetails site) feed"
proof -
  let ?E = "simEnv feed site b hearingCb"
  let ?st0 = "initialState 0 (w\<lparr>current := None\<rparr>) :: (href, heard_world) scrape_state"
  let ?st1 = "?st0\<lparr>allCards := feed, scrollAttempts := maxScrollAttempts\<rparr>"
  let ?st2 = "?st1\<lparr>processedUrls := processedUrls ?st1 \<union> set feed\<rparr>"
  let ?q = "zip feed [0..<0 + length feed]"
  have ld: "loadCards ?E m 20 ?st0 = (None, ?st1)"
    using m by (intro sim_loadCards [OF simPage_simEnv]) (simp_all add: initialState_def)
  have cu: "collectUrls ?E {} m (currentUpdatedIndex ?st1)
              (drop (currentUpdatedIndex ?st1) (allCards ?st1)) [] ?st1 = ([] @ ?q, ?st2)"
    using sim_collectUrls_all [of feed ?st1 "{}" "[]" m feed site b hearingCb 0] d m
    by (simp add: initialState_def)
  have "map fst ?q = feed" by simp
  with c
  have "\<forall>u \<in> set (map fst ?q). BusinessName (simDetails site u) \<noteq> []
     \<and> Address (simDetails site u) \<noteq> [] \<and> PhoneNumber (simDetails site u) \<noteq> []"
    by simp
  from sim_processUrls_heard [OF this, of ?st2 m feed b s l sid] m
  obtain st3 where pr: "processUrls ?E s l m sid ([] @ ?q) ?st2 = (None, st3)"
    and f: "newFound st3 = length feed" "results st3 = map (simDetails site) feed"
      "allCards st3 = feed" "scrollAttempts st3 = maxScrollAttempts"
    by (auto simp: initialState_def)
  define st4 where "st4 = (if newFound st3 < m
      then st3\<lparr>currentUpdatedIndex := length (allCards st3)\<rparr> else st3)"
  have "scrapeLoop (Suc f) ?E s l m sid 20 {} ?st0 = scrapeLoop f ?E s l m sid 20 {} st4"
    using scrapeLoop_round [OF _ _ ld cu pr, where f = f] m
    by (simp add: initialState_def maxScrollAttempts_def st4_def)
  also have "\<dots> = Some (None, st4)"
    by (rule scrapeLoop_done) (simp add: f st4_def)
  finally have lp: "scrapeLoop (Suc f) ?E s l (targetOf None m) sid 20 {} ?st0 = Some (None, st4)"
    by (simp add: targetOf_def)
  have os: "openSearch ?E s l w = (Inr True, w\<lparr>current := None\<rparr>)"
    by (simp add: sim_openSearch)
  from scrapeUrlsAndDetails_of_loop [OF os lp] f show ?thesis
    by (simp add: st4_def)
qed

lemma feedG_length: "length feedG = 23"
  by (simp add: feedG_def)

lemma feedG_complete:
  "\<forall>u \<in> set feedG. BusinessName (simDetails shopSite u) \<noteq> []
     \<and> Address (simDetails shopSite u) \<noteq> [] \<and> PhoneNumber (simDetails shopSite u) \<noteq> []"
  using shop_complete by (auto simp: feedG_def)

lemma feedG_distinct: "distinct feedG"
  by (simp add: feedG_def distinct_map inj_on_def)

lemma percents_of_40:
  "map (\<lambda>k. jsPercent k 40) [1..<24]
   = [3, 5, 8, 10, 13, 15, 18, 20, 23, 25, 28, 30, 33, 35, 38, 40, 43, 45, 48, 50, 53, 55, 57]"
  by code_simp

lemma sim_extract_failingFirst:
  "extractBusinessDetails (failingFirst (simEnv feed site b cb)) u w
   = (simDetails site u, w\<lparr>current := u\<rparr>)"
  by (simp add: extractBusinessDetails_def andThen_def failingFirst_fields sim_fields
      simDetails_def)

section \<open>The claims\<close>

text \<open>
  C1. A run whose candidate source can supply at least the target number of distinct,
  extractable, committable candidates returns exactly that many records. The code does
  not always do so. In run C the feed holds sixteen such candidates and the store is
  empty, but seven incomplete candidates follow the first one. The queue of the first
  round takes eight cards (line 495), one record is committed, the cursor is then moved to
  the end of the loaded cards (line 571), and the fifteen cards behind the queue are never
  visited: the second round starts behind the last card and uses up the scrolls. The run
  for a target of three returns two records, the second a copy of the first read back
  from the store.
\<close>

theorem exact_count_missed:
  "scrapeAndEnrich (Suc (Suc f)) (simEnv feedC shopSite True quietCb) [] [] 3 emptyStore
     = Some ([shop 10, shop 10], \<lparr>current = Some [8], store = [shopRow 10]\<rparr>)
   \<and> length [shop 10, shop 10] \<noteq> 3
   \<and> filter (\<lambda>u. completeRow (mapToSupabaseColumns (simDetails shopSite u))) feedC
       = Some [10] # map (\<lambda>n. Some [n]) [11..<26]
   \<and> distinct feedC"
proof -
  have "completeRow (mapToSupabaseColumns (simDetails shopSite (Some [n]))) = (10 \<le> n)" for n
    using shop_complete [of n] shop_incomplete [of n]
    by (cases "10 \<le> n") (simp_all add: completeRow_def mapToSupabaseColumns_def)
  then have "filter (\<lambda>u. completeRow (mapToSupabaseColumns (simDetails shopSite u))) feedC
       = Some [10] # map (\<lambda>n. Some [n]) [11..<26] \<and> distinct feedC"
    by (simp add: feedC_def)
  with runC [of f] show ?thesis by simp
qed

text \<open>
  C2 (as the code has it). A record whose insert the store answers with a violated unique
  constraint, at the first attempt or at a later one after failures that are tried again,
  is handled exactly as one whose insert succeeded: \<^verbatim>\<open>insertWithRetry\<close> returns
  true, the count of the run grows by one, the record is appended to the result list,
  once, and the callback is called, once, with the new percentage and the new list.
\<close>

theorem duplicate_treated_as_inserted:
  assumes nav: "andThen (gotoUrl env u 30000) (\<lambda>_. waitForTimeout env 2000) (world st)
                = (Inr x, w1)"
    and ext: "extractBusinessDetails env u w1 = (d, w2)"
    and full: "BusinessName d \<noteq> []" "Address d \<noteq> []" "PhoneNumber d \<noteq> []"
    and fails: "failedInserts env (withSession sid (mapToSupabaseColumns d)) k w2 = Some wk"
    and k: "k < 3"
    and ins: "dbInsert env (withSession sid (mapToSupabaseColumns d)) wk = (reply, w3)"
    and dup: "reply = DuplicateKey \<or> reply = Inserted"
    and step: "processUrl env s l tr sid u i st = (e, st')"
  shows "insertWithRetry env (withSession sid (mapToSupabaseColumns d)) 3 w2 = (True, w3)
         \<and> newFound st' = newFound st + 1 \<and> results st' = results st @ [d]
         \<and> progressCalls st'
             = progressCalls st @ [(jsPercent (newFound st + 1) tr, results st @ [d])]
         \<and> (callbackLog env calls
            \<longrightarrow> calls (world st')
                = calls (world st) @ [(jsPercent (newFound st + 1) tr, results st @ [d])])"
proof -
  let ?row = "withSession sid (mapToSupabaseColumns d)"
  from k have "Suc (k + (2 - k)) = 3" by simp
  with failedInserts_then [OF fails ins dup, of "2 - k"]
  have iw: "insertWithRetry env ?row 3 w2 = (True, w3)"
    by (simp add: insertWithRetry_def)
  note c = processUrl_commit [OF nav ext full iw step, of calls]
  have "calls w3 = calls (world st)" if cl: "callbackLog env calls"
  proof -
    have "calls (snd (andThen (gotoUrl env u 30000) (\<lambda>_. waitForTimeout env 2000) (world st)))
          = calls (world st)"
      by (intro andThen_calls callbackLog_fields [OF cl])
    with nav have "calls w1 = calls (world st)" by simp
    moreover from extractBusinessDetails_calls [OF cl, of u w1] ext
    have "calls w2 = calls w1" by simp
    moreover from failedInserts_calls [OF cl fails] have "calls wk = calls w2" .
    moreover from callbackLog_fields(11) [OF cl, of ?row wk] ins
    have "calls w3 = calls wk" by simp
    ultimately show ?thesis by simp
  qed
  with c iw show ?thesis by simp
qed

theorem duplicate_treated_as_inserted_witness:
  "insertWithRetry (failingFirst (simEnv [Some [10]] shopSite False hearingCb)) (shopRow 10) 3
       \<lparr>current = Some [10], store = [shopRow 10], heard = [], outage = 1\<rparr>
     = (True, \<lparr>current = Some [10], store = [shopRow 10], heard = [], outage = 0\<rparr>)
   \<and> newFound (snd (processUrl (failingFirst (simEnv [Some [10]] shopSite False hearingCb))
                       [] [] 2 None (Some [10]) 0 (initialState 0 (unheard [shopRow 10] 1))))
     = 1
   \<and> results (snd (processUrl (failingFirst (simEnv [Some [10]] shopSite False hearingCb))
                       [] [] 2 None (Some [10]) 0 (initialState 0 (unheard [shopRow 10] 1))))
     = [shop 10]
   \<and> heard (world (snd (processUrl (failingFirst (simEnv [Some [10]] shopSite False hearingCb))
                       [] [] 2 None (Some [10]) 0 (initialState 0 (unheard [shopRow 10] 1)))))
     = [(50, [shop 10])]"
proof -
  let ?E = "failingFirst (simEnv [Some [10]] shopSite False hearingCb)"
  let ?st = "initialState 0 (unheard [shopRow 10] 1) :: (href, heard_world) scrape_state"
  let ?w = "\<lparr>current = Some [10], store = [shopRow 10], heard = [], outage = 1\<rparr>"
  let ?w' = "\<lparr>current = Some [10], store = [shopRow 10], heard = [], outage = 0\<rparr>"
  have nav: "andThen (gotoUrl ?E (Some [10]) 30000) (\<lambda>_. waitForTimeout ?E 2000) (world ?st)
             = (Inr (), ?w)"
    by (simp add: andThen_def failingFirst_fields sim_fields initialState_def unheard_def)
  have ext: "extractBusinessDetails ?E (Some [10]) ?w = (shop 10, ?w)"
    by (simp add: sim_extract_failingFirst shop_def)
  have full: "BusinessName (shop 10) \<noteq> []" "Address (shop 10) \<noteq> []" "PhoneNumber (shop 10) \<noteq> []"
    using shop_complete [of 10] by (simp_all add: shop_def)
  have fails: "failedInserts ?E (withSession None (mapToSupabaseColumns (shop 10))) 1 ?w = Some ?w'"
    by (simp add: failingFirst_fields)
  have ins: "dbInsert ?E (withSession None (mapToSupabaseColumns (shop 10))) ?w' = (DuplicateKey, ?w')"
    by (simp add: failingFirst_fields sim_fields withSession_def shopRow_def [symmetric])
  obtain e st' where step: "processUrl ?E [] [] 2 None (Some [10]) 0 ?st = (e, st')"
    by (cases "processUrl ?E [] [] 2 None (Some [10]) 0 ?st")
  from duplicate_treated_as_inserted [OF nav ext full fails _ ins _ step, of heard]
    callbackLog_failingFirst [of "[Some [10]]" shopSite False] step
  show ?thesis
    by (simp add: withSession_def shopRow_def [symmetric] initialState_def unheard_def percent_1_2)
qed

theorem duplicate_is_appended:
  "dbInsert (simEnv [Some [10]] shopSite False quietCb) (shopRow 10)
       \<lparr>current = Some [10], store = [shopRow 10]\<rparr>
     = (DuplicateKey, \<lparr>current = Some [10], store = [shopRow 10]\<rparr>)
   \<and> results (initialState 0 (storeOf [shopRow 10]) :: (href, sim_world) scrape_state) = []
   \<and> results (snd (processUrl (simEnv [Some [10]] shopSite False quietCb) [] [] 2 None
                       (Some [10]) 0 (initialState 0 (storeOf [shopRow 10])))) = [shop 10]"
  using shop_complete [of 10]
  by (simp add: sim_fields sim_processUrl_commit shop_def [symmetric] initialState_def)


text \<open>
  C3 (as the code has it). The records that the main loop commits have pairwise distinct
  URLs, none of them a URL that the store held at the start of the run, and no URL is
  passed to the extraction twice or when the store held it. (The list of the whole run may
  repeat a URL, since the top-up of the last step appends rows of the store unchecked.)
\<close>

theorem main_loop_no_duplicates:
  assumes "scrapeUrlsAndDetails fuel env s l m idx sid des buf existing w = Some (r, st)"
  shows "distinct (map URL (rResults r)) \<and> set (map URL (rResults r)) \<inter> existing = {}
         \<and> distinct (extracted st) \<and> set (extracted st) \<inter> existing = {}"
  using scrapeUrlsAndDetails_inv [OF assms] by (auto simp: runInvariant_def)

theorem main_loop_no_duplicates_witness:
  "distinct (map URL [shop 30, shop 40])
   \<and> set (map URL [shop 30, shop 40]) \<inter> {Some [10]} = {}
   \<and> distinct [Some [30], Some [40 :: nat]]
   \<and> set [Some [30], Some [40 :: nat]] \<inter> {Some [10]} = {}"
  using main_loop_no_duplicates [OF runF_scrape [of 0]] by simp

theorem run_repeats_identifier:
  "scrapeAndEnrich 1 (simEnv [Some [10]] shopSite True quietCb) [] [] 2 emptyStore
     = Some ([shop 10, shop 10], \<lparr>current = None, store = [shopRow 10]\<rparr>)
   \<and> \<not> distinct (map URL [shop 10, shop 10])"
  using runA [of 0] by simp

text \<open>
  C4 (as the code has it). When the list is shorter than the target after the main loop,
  the last step asks the store for the most recent rows, at most the target number, maps
  them to records and appends the first of them, as many as are missing, whether or not their
  URL is already in the list; when the store has fewer the list stays short, and when the read
  fails the list is unchanged.
\<close>

theorem top_up_appends_first_rows:
  "(length rs < m \<and> dbSelectRecent env m w = (Some rows, w1)
      \<longrightarrow> finalCorrection env m rs w = (rs @ take (m - length rs) (map fromRow rows), w1)
        \<and> length (fst (finalCorrection env m rs w)) = min m (length rs + length rows))
   \<and> (length rs < m \<and> dbSelectRecent env m w = (None, w1)
      \<longrightarrow> finalCorrection env m rs w = (rs, w1))"
  by (auto simp: finalCorrection_def Let_def)

theorem top_up_appends_first_rows_witness:
  "finalCorrection (simEnv [] shopSite True quietCb) 3 [shop 30] (storeOf [shopRow 10])
     = ([shop 30, shop 10], storeOf [shopRow 10])
   \<and> length (fst (finalCorrection (simEnv [] shopSite True quietCb) 3 [shop 30]
                    (storeOf [shopRow 10]))) = 2
   \<and> finalCorrection ((simEnv [] shopSite True quietCb)
          \<lparr>dbSelectRecent := \<lambda>limit w. (None, w)\<rparr>) 3 [shop 30] (storeOf [shopRow 10])
     = ([shop 30], storeOf [shopRow 10])"
proof -
  let ?E = "simEnv [] shopSite True quietCb"
  let ?w = "storeOf [shopRow 10]"
  have a: "length [shop 30] < 3 \<and> dbSelectRecent ?E 3 ?w = (Some [shopRow 10], ?w)"
    by (simp add: sim_fields storeOf_def)
  have b: "length [shop 30] < 3
           \<and> dbSelectRecent (?E\<lparr>dbSelectRecent := \<lambda>limit w. (None, w)\<rparr>) 3 ?w = (None, ?w)"
    by simp
  from top_up_appends_first_rows [of "[shop 30]" 3 ?E ?w "[shopRow 10]" ?w] a
    top_up_appends_first_rows [of "[shop 30]" 3 "?E\<lparr>dbSelectRecent := \<lambda>limit w. (None, w)\<rparr>"
      ?w "[]" ?w] b
  show ?thesis by (simp add: fromRow_shopRow)
qed

theorem top_up_appends_present_record:
  "finalCorrection (simEnv [] shopSite True quietCb) 2 [shop 10] (storeOf [shopRow 10])
     = ([shop 10, shop 10], storeOf [shopRow 10])
   \<and> URL (fromRow (shopRow 10)) \<in> set (map URL [shop 10])"
  by (simp add: sim_finalCorrection storeOf_def fromRow_shopRow)

text \<open>
  C6. Whatever is thrown in the body of \<^verbatim>\<open>scrapeUrlsAndDetails\<close> is caught at its end:
  however the body ends, by a return or by a throw, the function returns the results
  accumulated so far and the cursor, as they are at that moment, and never throws itself.
  On a page that never shows more than \<open>N\<close> cards the body does end, within
  \<open>51 * (N + 1)\<close> rounds of the main loop.
\<close>

theorem faults_contained:
  "(scrapeTry fuel env s l m idx sid des buf ex w = Some (c, st)
      \<longrightarrow> scrapeUrlsAndDetails fuel env s l m idx sid des buf ex w
          = Some (\<lparr>rNewFound = length (results st),
                   rUpdatedIndex = currentUpdatedIndex st, rResults = results st\<rparr>, st))
   \<and> ((\<forall>w cards w'. queryCards env w = (Inr cards, w') \<longrightarrow> length cards \<le> N)
      \<longrightarrow> (\<exists>c st. scrapeTry (51 * (N + 1)) env s l m idx sid des buf ex w = Some (c, st)))"
proof (rule conjI; rule impI)
  assume t: "scrapeTry fuel env s l m idx sid des buf ex w = Some (c, st)"
  show "scrapeUrlsAndDetails fuel env s l m idx sid des buf ex w
        = Some (\<lparr>rNewFound = length (results st),
                 rUpdatedIndex = currentUpdatedIndex st, rResults = results st\<rparr>, st)"
  proof (cases c)
    case (Throws err)
    with t show ?thesis by (simp add: scrapeUrlsAndDetails_def)
  next
    case (Returns r)
    with scrapeTry_inv [OF t]
    have "r = \<lparr>rNewFound = length (results st),
                 rUpdatedIndex = currentUpdatedIndex st, rResults = results st\<rparr>"
      by (cases r) simp
    with t Returns show ?thesis by (simp add: scrapeUrlsAndDetails_def)
  qed
next
  assume b: "\<forall>w cards w'. queryCards env w = (Inr cards, w') \<longrightarrow> length cards \<le> N"
  have "scrapeTry (51 * (N + 1)) env s l m idx sid des buf ex w \<noteq> None"
    by (rule scrapeTry_returns) (use b in blast)
  then show "\<exists>c st. scrapeTry (51 * (N + 1)) env s l m idx sid des buf ex w = Some (c, st)"
    by (cases "scrapeTry (51 * (N + 1)) env s l m idx sid des buf ex w") auto
qed

theorem faults_contained_witness:
  "scrapeTry 102 (simEnv [Some [10]] shopSite True throwingCb) [] [] 2 0 None None 20 {}
       emptyStore
     = Some (Throws OtherError,
         \<lparr>results = [shop 10], newFound = 1,
          processedUrls = {Some [10]}, duplicatesSkipped = 0, currentUpdatedIndex = 0,
          allCards = [Some [10]], scrollAttempts = 50,
          world = \<lparr>current = Some [10], store = [shopRow 10]\<rparr>,
          extracted = [Some [10]], committed = [shopRow 10],
          progressCalls = [(50, [shop 10])]\<rparr>)
   \<and> map_option fst
         (scrapeUrlsAndDetails 102 (simEnv [Some [10]] shopSite True throwingCb) [] [] 2 0
            None None 20 {} emptyStore)
     = Some \<lparr>rNewFound = 1, rUpdatedIndex = 0, rResults = [shop 10]\<rparr>
   \<and> (\<exists>c st. scrapeTry (51 * (1 + 1)) (simEnv [Some [10]] shopSite True throwingCb) [] [] 2 0
                 None None 20 {} emptyStore = Some (c, st))"
proof -
  let ?E = "simEnv [Some [10]] shopSite True throwingCb"
  have b: "\<forall>w cards w'. queryCards ?E w = (Inr cards, w') \<longrightarrow> length cards \<le> 1"
    by (auto simp: sim_fields)
  have t: "scrapeTry 102 ?E [] [] 2 0 None None 20 {} emptyStore
     = Some (Throws OtherError,
         \<lparr>results = [shop 10], newFound = 1,
          processedUrls = {Some [10]}, duplicatesSkipped = 0, currentUpdatedIndex = 0,
          allCards = [Some [10]], scrollAttempts = 50,
          world = \<lparr>current = Some [10], store = [shopRow 10]\<rparr>,
          extracted = [Some [10]], committed = [shopRow 10],
          progressCalls = [(50, [shop 10])]\<rparr>)"
    using runB_try [of 101] by simp
  from faults_contained [THEN conjunct1, THEN mp, OF t]
  have c1: "map_option fst (scrapeUrlsAndDetails 102 ?E [] [] 2 0 None None 20 {} emptyStore)
     = Some \<lparr>rNewFound = 1, rUpdatedIndex = 0, rResults = [shop 10]\<rparr>"
    by simp
  from faults_contained [THEN conjunct2, THEN mp, OF b]
  have c2: "\<exists>c st. scrapeTry (51 * (1 + 1)) ?E [] [] 2 0 None None 20 {} emptyStore = Some (c, st)" .
  from t c1 c2 show ?thesis by blast
qed

text \<open>
  C7. A candidate whose extracted record lacks the name, the address or the phone number
  is skipped: nothing is handed to \<^verbatim>\<open>insertWithRetry\<close>, the extraction is not tried
  again, the cursor moves just past the candidate, and the loop goes on. Every row that a
  run hands to \<^verbatim>\<open>insertWithRetry\<close> has the three fields.
\<close>

theorem incomplete_record_skipped:
  "(andThen (gotoUrl env u 30000) (\<lambda>_. waitForTimeout env 2000) (world st) = (Inr x, w1)
      \<and> extractBusinessDetails env u w1 = (d, w2)
      \<and> (BusinessName d = [] \<or> Address d = [] \<or> PhoneNumber d = [])
     \<longrightarrow> processUrl env s l tr sid u i st
          = (None, st\<lparr>world := w2, extracted := extracted st @ [u],
                        currentUpdatedIndex := i + 1\<rparr>))
   \<and> (scrapeUrlsAndDetails fuel env s l m idx sid des buf existing w = Some (r, st')
     \<longrightarrow> list_all completeRow (committed st'))"
proof (intro conjI impI)
  assume "andThen (gotoUrl env u 30000) (\<lambda>_. waitForTimeout env 2000) (world st) = (Inr x, w1)
      \<and> extractBusinessDetails env u w1 = (d, w2)
      \<and> (BusinessName d = [] \<or> Address d = [] \<or> PhoneNumber d = [])"
  then show "processUrl env s l tr sid u i st
          = (None, st\<lparr>world := w2, extracted := extracted st @ [u],
                        currentUpdatedIndex := i + 1\<rparr>)"
    by (auto simp: processUrl_def)
next
  assume "scrapeUrlsAndDetails fuel env s l m idx sid des buf existing w = Some (r, st')"
  from scrapeUrlsAndDetails_inv [OF this] show "list_all completeRow (committed st')"
    by (simp add: runInvariant_def)
qed

theorem incomplete_record_skipped_witness:
  "processUrl (simEnv feedF shopSite True quietCb) [] [] 2 None (Some [2]) 1
       (initialState 0 emptyStore)
     = (None, (initialState 0 emptyStore)
          \<lparr>world := \<lparr>current = Some [2], store = []\<rparr>, extracted := [Some [2]],
            currentUpdatedIndex := 2\<rparr>)
   \<and> list_all completeRow [shopRow 30, shopRow 40]"
proof -
  let ?E = "simEnv feedF shopSite True quietCb"
  let ?st = "initialState 0 emptyStore :: (href, sim_world) scrape_state"
  let ?w = "\<lparr>current = Some [2], store = []\<rparr>"
  have h: "andThen (gotoUrl ?E (Some [2]) 30000) (\<lambda>_. waitForTimeout ?E 2000) (world ?st)
             = (Inr (), ?w)
           \<and> extractBusinessDetails ?E (Some [2]) ?w = (simDetails shopSite (Some [2]), ?w)
           \<and> (BusinessName (simDetails shopSite (Some [2])) = []
               \<or> Address (simDetails shopSite (Some [2])) = []
               \<or> PhoneNumber (simDetails shopSite (Some [2])) = [])"
    using shop_incomplete [of 2]
    by (simp add: andThen_def sim_fields initialState_def emptyStore_def sim_extract)
  from incomplete_record_skipped [THEN conjunct1, THEN mp, OF h]
  have c1: "processUrl ?E [] [] 2 None (Some [2]) 1 ?st
            = (None, ?st\<lparr>world := ?w, extracted := extracted ?st @ [Some [2]],
                           currentUpdatedIndex := 1 + 1\<rparr>)" .
  from incomplete_record_skipped [THEN conjunct2, THEN mp, OF runF_scrape [of 0]]
  have c2: "list_all completeRow [shopRow 30, shopRow 40]" by simp
  from c1 c2 show ?thesis by (simp add: initialState_def)
qed


text \<open>
  C8. When the feed element is not found (\<^verbatim>\<open>page.$\<close> returns \<^verbatim>\<open>null\<close> after the search
  page has opened), \<^verbatim>\<open>scrapeUrlsAndDetails\<close> returns no new record, an empty list and the
  cursor it was given, and \<^verbatim>\<open>scrapeUrls\<close> returns the empty list; neither throws, and
  neither makes another call of the page.
\<close>

theorem missing_container_empty:
  assumes "openSearch env s l w = (Inr False, w1)"
  shows "scrapeUrlsAndDetails fuel env s l m idx sid des buf ex w
           = Some (\<lparr>rNewFound = 0, rUpdatedIndex = idx, rResults = []\<rparr>, initialState idx w1)
         \<and> scrapeUrls env s l m idx w = (Inr [], w1)"
  using assms
  by (simp add: scrapeUrlsAndDetails_def scrapeTry_def scrapeUrls_def Let_def)
    (simp add: initialState_def)

theorem missing_container_empty_witness:
  "map_option fst
     (scrapeUrlsAndDetails 0 ((simEnv feedF shopSite True quietCb)
          \<lparr>queryFeed := \<lambda>w. (Inr False, w)\<rparr>) [] [] 2 1 None None 20 {Some [10]}
        (storeOf [shopRow 10]))
     = Some \<lparr>rNewFound = 0, rUpdatedIndex = 1, rResults = []\<rparr>
   \<and> scrapeUrls ((simEnv feedF shopSite True quietCb)\<lparr>queryFeed := \<lambda>w. (Inr False, w)\<rparr>)
        [] [] 2 1 (storeOf [shopRow 10])
     = (Inr [], storeOf [shopRow 10])"
proof -
  let ?E = "(simEnv feedF shopSite True quietCb)\<lparr>queryFeed := \<lambda>w. (Inr False, w)\<rparr>"
  have os: "openSearch ?E [] [] (storeOf [shopRow 10]) = (Inr False, storeOf [shopRow 10])"
    by (simp add: openSearch_def andThen_def sim_fields)
  from missing_container_empty [OF os, of 0 2 1 None None 20 "{Some [10]}"]
  show ?thesis by simp
qed

text \<open>
  C9 (as the code has it). After every successful commit the progress callback is called,
  once, with \<^verbatim>\<open>Math.round((newFound / targetResults) * 100)\<close> and a copy of the
  results. In a run the calls are as many as the committed records, the \<open>k\<close>-th of them
  with the percentage of \<open>k\<close> records and the first \<open>k\<close> results, and the percentages
  never decrease. The percentage is computed in binary64: for a target of at most
  \<open>2 ^ 44\<close> it is an integer within \<open>1 / 2\<close> of \<open>100 * k / target\<close>, and it is that
  quotient rounded unless the quotient lies halfway between two integers. There it can be
  the lower one: the 23rd commit of a run with a target of 40 is reported as 57 per cent,
  where the quotient 57.5 rounds to 58.
\<close>

theorem progress_callback_calls:
  "(andThen (gotoUrl env u 30000) (\<lambda>_. waitForTimeout env 2000) (world st0) = (Inr x, w1)
      \<and> extractBusinessDetails env u w1 = (d, w2)
      \<and> BusinessName d \<noteq> [] \<and> Address d \<noteq> [] \<and> PhoneNumber d \<noteq> []
      \<and> insertWithRetry env (withSession sid (mapToSupabaseColumns d)) 3 w2 = (True, w3)
      \<and> processUrl env s l tr sid u i st0 = (e, st1) \<and> callbackLog env calls
      \<longrightarrow> calls (world st1)
          = calls (world st0) @ [(jsPercent (newFound st0 + 1) tr, results st0 @ [d])]
        \<and> newFound st1 = newFound st0 + 1 \<and> results st1 = results st0 @ [d])
   \<and> (scrapeUrlsAndDetails fuel env s l m idx sid des buf existing w = Some (r, st)
      \<and> callbackLog env calls
      \<longrightarrow> calls (world st)
          = calls w @ map (\<lambda>k. (jsPercent k (targetOf des m), take k (rResults r)))
                       [1..<Suc (length (rResults r))]
        \<and> sorted (map (\<lambda>k. jsPercent k (targetOf des m)) [1..<Suc (length (rResults r))])
        \<and> length (rResults r) \<le> targetOf des m)
   \<and> (0 < t \<and> t \<le> 2 ^ 44 \<and> n \<le> t
      \<longrightarrow> \<bar>of_int (int (jsPercent n t)) - (100 * of_nat n / of_nat t :: rat)\<bar> \<le> 1 / 2
        \<and> (frac (100 * of_nat n / of_nat t :: rat) \<noteq> 1 / 2
           \<longrightarrow> int (jsPercent n t) = round (100 * of_nat n / of_nat t :: rat)))"
proof -
  have c1: "andThen (gotoUrl env u 30000) (\<lambda>_. waitForTimeout env 2000) (world st0) = (Inr x, w1)
      \<and> extractBusinessDetails env u w1 = (d, w2)
      \<and> BusinessName d \<noteq> [] \<and> Address d \<noteq> [] \<and> PhoneNumber d \<noteq> []
      \<and> insertWithRetry env (withSession sid (mapToSupabaseColumns d)) 3 w2 = (True, w3)
      \<and> processUrl env s l tr sid u i st0 = (e, st1) \<and> callbackLog env calls
      \<longrightarrow> calls (world st1)
          = calls (world st0) @ [(jsPercent (newFound st0 + 1) tr, results st0 @ [d])]
        \<and> newFound st1 = newFound st0 + 1 \<and> results st1 = results st0 @ [d]"
  proof
    assume a: "andThen (gotoUrl env u 30000) (\<lambda>_. waitForTimeout env 2000) (world st0) = (Inr x, w1)
      \<and> extractBusinessDetails env u w1 = (d, w2)
      \<and> BusinessName d \<noteq> [] \<and> Address d \<noteq> [] \<and> PhoneNumber d \<noteq> []
      \<and> insertWithRetry env (withSession sid (mapToSupabaseColumns d)) 3 w2 = (True, w3)
      \<and> processUrl env s l tr sid u i st0 = (e, st1) \<and> callbackLog env calls"
    then have nav: "andThen (gotoUrl env u 30000) (\<lambda>_. waitForTimeout env 2000) (world st0)
                    = (Inr x, w1)"
      and ext: "extractBusinessDetails env u w1 = (d, w2)"
      and full: "BusinessName d \<noteq> []" "Address d \<noteq> []" "PhoneNumber d \<noteq> []"
      and iw: "insertWithRetry env (withSession sid (mapToSupabaseColumns d)) 3 w2 = (True, w3)"
      and step: "processUrl env s l tr sid u i st0 = (e, st1)"
      and cl: "callbackLog env calls" by simp_all
    have "calls (snd (andThen (gotoUrl env u 30000) (\<lambda>_. waitForTimeout env 2000) (world st0)))
          = calls (world st0)"
      by (intro andThen_calls callbackLog_fields [OF cl])
    with nav have "calls w1 = calls (world st0)" by simp
    moreover from extractBusinessDetails_calls [OF cl, of u w1] ext
    have "calls w2 = calls w1" by simp
    moreover from insertAttempts_calls [OF cl, of "withSession sid (mapToSupabaseColumns d)" 3 w2] iw
    have "calls w3 = calls w2" by (simp add: insertWithRetry_def)
    ultimately have "calls w3 = calls (world st0)" by simp
    with processUrl_commit [OF nav ext full iw step, of calls] cl
    show "calls (world st1)
          = calls (world st0) @ [(jsPercent (newFound st0 + 1) tr, results st0 @ [d])]
        \<and> newFound st1 = newFound st0 + 1 \<and> results st1 = results st0 @ [d]" by simp
  qed
  have c2: "scrapeUrlsAndDetails fuel env s l m idx sid des buf existing w = Some (r, st)
      \<and> callbackLog env calls
      \<longrightarrow> calls (world st)
          = calls w @ map (\<lambda>k. (jsPercent k (targetOf des m), take k (rResults r)))
                       [1..<Suc (length (rResults r))]
        \<and> sorted (map (\<lambda>k. jsPercent k (targetOf des m)) [1..<Suc (length (rResults r))])
        \<and> length (rResults r) \<le> targetOf des m"
  proof
    assume "scrapeUrlsAndDetails fuel env s l m idx sid des buf existing w = Some (r, st)
      \<and> callbackLog env calls"
    then have run: "scrapeUrlsAndDetails fuel env s l m idx sid des buf existing w = Some (r, st)"
      and cl: "callbackLog env calls" by simp_all
    from scrapeUrlsAndDetails_inv [OF run]
    have eq: "progressCalls st
          = map (\<lambda>k. (jsPercent k (targetOf des m), take k (rResults r)))
              [1..<Suc (length (rResults r))]"
      and le: "length (rResults r) \<le> targetOf des m"
      by (simp_all add: runInvariant_def)
    have "sorted_wrt (\<lambda>i k. jsPercent i (targetOf des m) \<le> jsPercent k (targetOf des m))
          [1..<Suc (length (rResults r))]"
      by (rule sorted_wrt_mono_rel [of _ "(\<le>)"]) (simp_all add: jsPercent_mono del: upt_Suc)
    then have "sorted (map (\<lambda>k. jsPercent k (targetOf des m)) [1..<Suc (length (rResults r))])"
      by (simp add: sorted_map del: upt_Suc)
    with scrapeUrlsAndDetails_calls [OF cl run] eq le
    show "calls (world st)
          = calls w @ map (\<lambda>k. (jsPercent k (targetOf des m), take k (rResults r)))
                       [1..<Suc (length (rResults r))]
        \<and> sorted (map (\<lambda>k. jsPercent k (targetOf des m)) [1..<Suc (length (rResults r))])
        \<and> length (rResults r) \<le> targetOf des m" by simp
  qed
  have c3: "0 < t \<and> t \<le> 2 ^ 44 \<and> n \<le> t
      \<longrightarrow> \<bar>of_int (int (jsPercent n t)) - (100 * of_nat n / of_nat t :: rat)\<bar> \<le> 1 / 2
        \<and> (frac (100 * of_nat n / of_nat t :: rat) \<noteq> 1 / 2
           \<longrightarrow> int (jsPercent n t) = round (100 * of_nat n / of_nat t :: rat))"
    using jsPercent_nearest [of t n] by blast
  from c1 c2 c3 show ?thesis by (rule conjI [OF _ conjI])
qed

theorem progress_callback_calls_witness:
  "heard (world (snd (processUrl (simEnv [Some [30], Some [40]] shopSite True hearingCb)
                        [] [] 2 None (Some [30]) 0 (initialState 0 (unheard [] 0)))))
     = [(50, [shop 30])]
   \<and> map_option (\<lambda>(r, st). (rResults r, heard (world st)))
        (scrapeUrlsAndDetails (Suc 0) (simEnv [Some [30], Some [40]] shopSite True hearingCb)
           [] [] 2 0 None None 20 {} (unheard [] 0))
     = Some ([shop 30, shop 40], [(50, [shop 30]), (100, [shop 30, shop 40])])
   \<and> sorted [50, 100 :: nat]
   \<and> \<bar>of_int (int (jsPercent 2 3)) - (100 * of_nat 2 / of_nat 3 :: rat)\<bar> \<le> 1 / 2
   \<and> int (jsPercent 2 3) = round (100 * of_nat 2 / of_nat 3 :: rat)"
proof -
  let ?E = "simEnv [Some [30], Some [40]] shopSite True hearingCb"
  let ?st = "initialState 0 (unheard [] 0) :: (href, heard_world) scrape_state"
  let ?w = "\<lparr>current = Some [30], store = [], heard = [], outage = 0\<rparr>"
  let ?w' = "\<lparr>current = Some [30], store = [shopRow 30], heard = [], outage = 0\<rparr>"
  note cl = callbackLog_hearing [of "[Some [30], Some [40]]" shopSite True]
  have nav: "andThen (gotoUrl ?E (Some [30]) 30000) (\<lambda>_. waitForTimeout ?E 2000) (world ?st)
             = (Inr (), ?w)"
    by (simp add: andThen_def sim_fields initialState_def unheard_def)
  have ext: "extractBusinessDetails ?E (Some [30]) ?w = (shop 30, ?w)"
    by (simp add: sim_extract shop_def)
  have full: "BusinessName (shop 30) \<noteq> []" "Address (shop 30) \<noteq> []" "PhoneNumber (shop 30) \<noteq> []"
    using shop_complete [of 30] by (simp_all add: shop_def)
  have iw: "insertWithRetry ?E (withSession None (mapToSupabaseColumns (shop 30))) 3 ?w = (True, ?w')"
    by (simp add: insertWithRetry_def numeral_3_eq_3 sim_fields withSession_def
        shopRow_def [symmetric])
  obtain e st1 where step: "processUrl ?E [] [] 2 None (Some [30]) 0 ?st = (e, st1)"
    by (cases "processUrl ?E [] [] 2 None (Some [30]) 0 ?st")
  from nav ext full iw step cl
  have h1: "andThen (gotoUrl ?E (Some [30]) 30000) (\<lambda>_. waitForTimeout ?E 2000) (world ?st)
        = (Inr (), ?w)
      \<and> extractBusinessDetails ?E (Some [30]) ?w = (shop 30, ?w)
      \<and> BusinessName (shop 30) \<noteq> [] \<and> Address (shop 30) \<noteq> [] \<and> PhoneNumber (shop 30) \<noteq> []
      \<and> insertWithRetry ?E (withSession None (mapToSupabaseColumns (shop 30))) 3 ?w = (True, ?w')
      \<and> processUrl ?E [] [] 2 None (Some [30]) 0 ?st = (e, st1) \<and> callbackLog ?E heard"
    by simp
  from progress_callback_calls [THEN conjunct1, THEN mp, OF h1] step
  have p1: "heard (world (snd (processUrl ?E [] [] 2 None (Some [30]) 0 ?st))) = [(50, [shop 30])]"
    by (simp add: initialState_def unheard_def percent_1_2)
  have cmp: "\<forall>u \<in> set [Some [30], Some [40]]. BusinessName (simDetails shopSite u) \<noteq> []
     \<and> Address (simDetails shopSite u) \<noteq> [] \<and> PhoneNumber (simDetails shopSite u) \<noteq> []"
    using shop_complete [of 30] shop_complete [of 40] by simp
  have "distinct [Some [30::nat], Some [40]]" by simp
  from sim_run_heard [OF this cmp, of 2 0 True "[]" "[]" None "unheard [] 0"]
  obtain r st where run: "scrapeUrlsAndDetails (Suc 0) ?E [] [] 2 0 None None 20 {} (unheard [] 0)
      = Some (r, st)"
    and res: "rResults r = [shop 30, shop 40]"
    by (auto simp: shop_def)
  from run cl have h2: "scrapeUrlsAndDetails (Suc 0) ?E [] [] 2 0 None None 20 {} (unheard [] 0)
      = Some (r, st) \<and> callbackLog ?E heard" by simp
  from progress_callback_calls [THEN conjunct2, THEN conjunct1, THEN mp, OF h2] res
  have p2: "heard (world st) = [(50, [shop 30]), (100, [shop 30, shop 40])]
            \<and> sorted [50, 100 :: nat]"
    by (simp add: targetOf_def unheard_def percent_1_2 percent_2_2)
  have h3: "0 < (3::nat) \<and> (3::nat) \<le> 2 ^ 44 \<and> (2::nat) \<le> 3" by simp
  have nt: "frac (100 * of_nat 2 / of_nat 3 :: rat) \<noteq> 1 / 2"
    by code_simp
  from progress_callback_calls [THEN conjunct2, THEN conjunct2, THEN mp, OF h3] nt
  have p3: "\<bar>of_int (int (jsPercent 2 3)) - (100 * of_nat 2 / of_nat 3 :: rat)\<bar> \<le> 1 / 2
   \<and> int (jsPercent 2 3) = round (100 * of_nat 2 / of_nat 3 :: rat)" by blast
  from p1 p2 run res
  have "heard (world (snd (processUrl ?E [] [] 2 None (Some [30]) 0 ?st))) = [(50, [shop 30])]
   \<and> map_option (\<lambda>(r, st). (rResults r, heard (world st)))
        (scrapeUrlsAndDetails (Suc 0) ?E [] [] 2 0 None None 20 {} (unheard [] 0))
     = Some ([shop 30, shop 40], [(50, [shop 30]), (100, [shop 30, shop 40])])
   \<and> sorted [50, 100 :: nat]" by simp
  with p3 show ?thesis by blast
qed

theorem percent_of_23_in_40:
  "map_option (\<lambda>(r, st). (rResults r, map (\<lambda>(p, snapshot). (p, length snapshot)) (heard (world st))))
     (scrapeUrlsAndDetails (Suc 0) (simEnv feedG shopSite True hearingCb) [] [] 40 0 None None
        20 {} (unheard [] 0))
   = Some (map shop [10..<33],
       [(3, 1), (5, 2), (8, 3), (10, 4), (13, 5), (15, 6), (18, 7), (20, 8), (23, 9), (25, 10),
        (28, 11), (30, 12), (33, 13), (35, 14), (38, 15), (40, 16), (43, 17), (45, 18),
        (48, 19), (50, 20), (53, 21), (55, 22), (57, 23)])
   \<and> round (23 / 40 * 100 :: rat) = 58"
proof -
  let ?E = "simEnv feedG shopSite True hearingCb"
  from sim_run_heard [OF feedG_distinct feedG_complete, of 40 0 True "[]" "[]" None "unheard [] 0"]
  obtain r st where run: "scrapeUrlsAndDetails (Suc 0) ?E [] [] 40 0 None None 20 {} (unheard [] 0)
      = Some (r, st)"
    and res: "rResults r = map (simDetails shopSite) feedG"
    by (auto simp: feedG_length)
  from scrapeUrlsAndDetails_inv [OF run]
  have inv: "progressCalls st
             = map (\<lambda>k. (jsPercent k 40, take k (results st))) [1..<Suc (newFound st)]"
    "length (results st) = newFound st" "rResults r = results st"
    by (simp_all add: runInvariant_def targetOf_def del: upt_Suc)
  from inv(3) res have "results st = map (simDetails shopSite) feedG" by simp
  then have "length (results st) = 23" by (simp add: feedG_length)
  with inv(2) have n: "newFound st = 23" by simp
  from inv(1,3) n
  have pc: "progressCalls st = map (\<lambda>k. (jsPercent k 40, take k (rResults r))) [1..<24]"
    by (simp del: upt_Suc)
  from scrapeUrlsAndDetails_calls [OF callbackLog_hearing run]
  have "heard (world st) = progressCalls st" by (simp add: unheard_def)
  with pc have "map (\<lambda>(p, snapshot). (p, length snapshot)) (heard (world st))
      = map (\<lambda>k. (jsPercent k 40, k)) [1..<24]"
    by (simp add: res feedG_length del: upt_Suc)
  also have "\<dots> = zip (map (\<lambda>k. jsPercent k 40) [1..<24]) [1..<24]"
    by (simp add: zip_map1 zip_same_conv_map del: upt_Suc)
  also have "\<dots> = [(3, 1), (5, 2), (8, 3), (10, 4), (13, 5), (15, 6), (18, 7), (20, 8), (23, 9), (25, 10),
        (28, 11), (30, 12), (33, 13), (35, 14), (38, 15), (40, 16), (43, 17), (45, 18),
        (48, 19), (50, 20), (53, 21), (55, 22), (57, 23)]"
    unfolding percents_of_40 by (simp add: upt_conv_Cons)
  finally have h: "map (\<lambda>(p, snapshot). (p, length snapshot)) (heard (world st)) = [(3, 1), (5, 2), (8, 3), (10, 4), (13, 5), (15, 6), (18, 7), (20, 8), (23, 9), (25, 10),
        (28, 11), (30, 12), (33, 13), (35, 14), (38, 15), (40, 16), (43, 17), (45, 18),
        (48, 19), (50, 20), (53, 21), (55, 22), (57, 23)]" .
  have "map (simDetails shopSite) feedG = map shop [10..<33]"
    by (simp add: feedG_def shop_def comp_def)
  moreover have "round (23 / 40 * 100 :: rat) = 58" by (simp add: round_def)
  ultimately show ?thesis using run res h by simp
qed

text \<open>
  C10. When the main loop has committed no record, \<^verbatim>\<open>scrapeAndEnrich\<close> returns the empty
  list, whatever the last step has appended to the list from the store: the count that
  is tested at the end was taken before that step.
\<close>

theorem zero_new_returns_empty:
  assumes "getPermanentSearchProgress env w = (pp, w1)"
    and "dbInsertSession env s l (lastRetrievedCount pp) (updatedIndex pp) w1 = (sid, w2)"
    and "scrapeUrlsAndDetails fuel env s l m (updatedIndex pp) sid None 20 (existingUrls pp) w2
         = Some (r, st)"
    and "rResults r = []"
  shows "\<exists>w'. scrapeAndEnrich fuel env s l m w = Some ([], w')"
  using assms by (simp add: scrapeAndEnrich_def split: prod.splits)

theorem zero_new_returns_empty_witness:
  "map_option fst (scrapeAndEnrich 1 (simEnv [Some [10]] shopSite True quietCb) [] [] 2
                     (storeOf [shopRow 10])) = Some []
   \<and> finalCorrection (simEnv [Some [10]] shopSite True quietCb) 2 [] (storeOf [shopRow 10])
     = ([shop 10], storeOf [shopRow 10])"
proof -
  let ?E = "simEnv [Some [10]] shopSite True quietCb"
  let ?pp = "\<lparr>updatedIndex = 1, lastRetrievedCount = 1, existingUrls = {Some [10]}\<rparr>"
  have ses: "dbInsertSession ?E [] [] (lastRetrievedCount ?pp) (updatedIndex ?pp)
               (storeOf [shopRow 10]) = (None, storeOf [shopRow 10])"
    by (simp add: sim_fields)
  have sc: "scrapeUrlsAndDetails 1 ?E [] [] 2 (updatedIndex ?pp) None None 20 (existingUrls ?pp)
              (storeOf [shopRow 10])
            = Some (\<lparr>rNewFound = 0, rUpdatedIndex = 1, rResults = []\<rparr>,
       \<lparr>results = [], newFound = 0, processedUrls = {}, duplicatesSkipped = 0,
        currentUpdatedIndex = 1, allCards = [Some [10]], scrollAttempts = 50,
        world = storeOf [shopRow 10], extracted = [], committed = [], progressCalls = []\<rparr>)"
    using runE_scrape [of 0] by simp
  from zero_new_returns_empty [OF runE_progress ses sc]
  have "\<exists>w'. scrapeAndEnrich 1 ?E [] [] 2 (storeOf [shopRow 10]) = Some ([], w')" by simp
  moreover have "finalCorrection ?E 2 [] (storeOf [shopRow 10])
     = ([shop 10], storeOf [shopRow 10])"
    by (simp add: sim_finalCorrection storeOf_def fromRow_shopRow)
  ultimately show ?thesis by auto
qed

end
